theory Spec2Isabelle
  imports Complex_Main "HOL-Library.Product_Lexorder"
begin

section \<open>Python and tensor-library failures\<close>

text \<open>
  The notebook \<^verbatim>\<open>nbs/LLM_from_Scratch_1.ipynb\<close> is Python on top of a tensor
  library. Every exception the modelled code can raise is a value of \<open>py_error\<close>;
  a fallible operation returns \<open>py_error + 'a\<close> with \<open>Inl\<close> for the exception.
\<close>

datatype py_error =
    IndexError          \<comment> \<open>an index outside its table, or outside a dimension\<close>
  | ZeroDivisionError   \<comment> \<open>Python \<open>/\<close> or \<open>%\<close> of two ints with a zero divisor\<close>
  | AssertionError      \<comment> \<open>a failed \<open>assert\<close>\<close>
  | ValueError          \<comment> \<open>a constructor argument the library refuses\<close>
  | DTypeError          \<comment> \<open>an embedding lookup with a floating index tensor\<close>
  | ShapeError          \<comment> \<open>tensor shapes that do not fit\<close>
  | TopkRangeError      \<comment> \<open>\<open>torch.topk\<close> with \<open>k\<close> out of range\<close>
  | InvalidDistribution \<comment> \<open>\<open>torch.multinomial\<close> rejecting its probabilities\<close>
  | NanValue            \<comment> \<open>no exception: a float result that is \<open>nan\<close>, not a number\<close>

definition bind_err :: "py_error + 'a \<Rightarrow> ('a \<Rightarrow> py_error + 'b) \<Rightarrow> py_error + 'b" where
  "bind_err r f = (case r of Inl e \<Rightarrow> Inl e | Inr v \<Rightarrow> f v)"

section \<open>Tensor-library primitives\<close>

text \<open>
  A finite floating-point number is read as a real, its rounding aside; a vector is a
  list, a matrix the list of its rows. Where the library takes a batch, the model takes
  the list of the batch's elements. The primitives below are the library calls the
  notebook makes, each with the failure it raises.
\<close>

type_synonym vec = "real list"
type_synonym mat = "real list list"

text \<open>Running a list of fallible computations: the first failure is the result.\<close>

fun sequence_err :: "(py_error + 'a) list \<Rightarrow> py_error + 'a list" where
  "sequence_err [] = Inr []"
| "sequence_err (r # rs) =
     (case r of
        Inl e \<Rightarrow> Inl e
      | Inr v \<Rightarrow> (case sequence_err rs of Inl e \<Rightarrow> Inl e | Inr vs \<Rightarrow> Inr (v # vs)))"

text \<open>\<open>torch.softmax(_, dim=-1)\<close> on one row of finite values.\<close>

definition softmax :: "vec \<Rightarrow> vec" where
  "softmax xs = map (\<lambda>x. exp x / sum_list (map exp xs)) xs"

text \<open>
  \<open>torch.argmax(_, dim=-1, keepdim=True)\<close>: for every row the index of its first maximal
  value, kept as a one-element row; a row of size zero is rejected.
\<close>

definition argmax_row :: "vec \<Rightarrow> nat" where
  "argmax_row xs = length (takeWhile (\<lambda>x. x \<noteq> Max (set xs)) xs)"

definition torch_argmax :: "mat \<Rightarrow> py_error + nat list list" where
  "torch_argmax logits =
     sequence_err (map (\<lambda>row. if row = [] then Inl IndexError else Inr [argmax_row row]) logits)"

subsection \<open>Floats that are not finite\<close>

text \<open>
  Dividing the logits by a temperature can leave the finite range, and whether a
  sampling call raises depends on it. A value of the quotient and of everything
  computed from it is a \<open>f32\<close>: a finite number, \<open>+inf\<close>, \<open>-inf\<close> or \<open>nan\<close>. A real
  quotient of magnitude \<open>(2 - 2\<^sup>-\<^sup>2\<^sup>4) * 2\<^sup>1\<^sup>2\<^sup>7\<close> or more rounds to an infinity in
  32-bit floats. A finite non-zero number divided by zero is the infinity of its sign,
  and zero divided by zero is \<open>nan\<close>.
\<close>

datatype f32 = Finite real | PosInf | NegInf | NaN

definition overflow_at :: real where
  "overflow_at = (2 - 1 / 2 ^ 24) * 2 ^ 127"

definition f32_of :: "real \<Rightarrow> f32" where
  "f32_of x =
     (if overflow_at \<le> x then PosInf else if x \<le> - overflow_at then NegInf else Finite x)"

definition f32_div :: "real \<Rightarrow> real \<Rightarrow> f32" where
  "f32_div a b =
     (if b = 0 then (if a = 0 then NaN else if 0 < a then PosInf else NegInf)
      else f32_of (a / b))"

fun is_finite :: "f32 \<Rightarrow> bool" where
  "is_finite (Finite v) = True"
| "is_finite x = False"

text \<open>The finite entries of a row, in their order.\<close>

definition finite_part :: "f32 list \<Rightarrow> vec" where
  "finite_part xs = concat (map (\<lambda>x. case x of Finite v \<Rightarrow> [v] | _ \<Rightarrow> []) xs)"

text \<open>
  \<open>torch.softmax(_, dim=-1)\<close> on a row of such values subtracts the row's maximum
  first. A \<open>nan\<close> or a \<open>+inf\<close> in the row, or a row of \<open>-inf\<close> only, makes every entry
  of the result \<open>nan\<close>; otherwise a \<open>-inf\<close> gets the probability \<open>0\<close> and the finite
  entries share the mass.
\<close>

definition softmax_f32 :: "f32 list \<Rightarrow> f32 list" where
  "softmax_f32 xs =
     (if NaN \<in> set xs \<or> PosInf \<in> set xs \<or> finite_part xs = [] then map (\<lambda>_. NaN) xs
      else map (\<lambda>x. case x of
                      Finite v \<Rightarrow> Finite (exp v / sum_list (map exp (finite_part xs)))
                    | _ \<Rightarrow> Finite 0) xs)"

text \<open>
  \<open>torch.topk(_, k)\<close>: for every row its \<open>k\<close> largest values in descending order,
  each with its index, \<open>nan\<close> counting as the largest value. A \<open>k\<close> that is negative or
  larger than the row is rejected. The library does not fix the order among equal
  values: it is the order its selection kernel leaves. The model takes that order as
  the argument \<open>order\<close>, which lists the indices of a row from the largest value to
  the smallest; \<open>valid_ranking\<close> says that it does so, in whatever order among equal
  values. \<open>desc_key\<close> is smaller for the larger value.
\<close>

definition desc_key :: "f32 \<Rightarrow> nat \<times> real" where
  "desc_key x =
     (case x of NaN \<Rightarrow> (0, 0) | PosInf \<Rightarrow> (1, 0) | Finite v \<Rightarrow> (2, - v) | NegInf \<Rightarrow> (3, 0))"

definition valid_ranking :: "(f32 list \<Rightarrow> nat list) \<Rightarrow> bool" where
  "valid_ranking order =
     (\<forall>xs. distinct (order xs) \<and> set (order xs) = {..<length xs}
           \<and> sorted (map (\<lambda>i. desc_key (xs ! i)) (order xs)))"

definition topk_row :: "(f32 list \<Rightarrow> nat list) \<Rightarrow> f32 list \<Rightarrow> nat \<Rightarrow> (nat \<times> f32) list" where
  "topk_row order xs k = map (\<lambda>i. (i, xs ! i)) (take k (order xs))"

definition torch_topk ::
  "(f32 list \<Rightarrow> nat list) \<Rightarrow> f32 list list \<Rightarrow> int
     \<Rightarrow> py_error + (f32 list list \<times> nat list list)" where
  "torch_topk order logits k =
     (if k < 0 \<or> (\<exists>row \<in> set logits. int (length row) < k) then Inl TopkRangeError
      else Inr (map (\<lambda>row. map snd (topk_row order row (nat k))) logits,
                map (\<lambda>row. map fst (topk_row order row (nat k))) logits))"

text \<open>
  Two rankings: a stable sort of the indices by value, the indices taken from \<open>0\<close>
  upwards, so that the lower index comes first among equal values; and the same with
  the indices taken from the middle one upwards and then from \<open>0\<close>, so that among
  equal values the middle index comes first.
\<close>

definition ranking_from :: "(nat \<Rightarrow> nat list) \<Rightarrow> f32 list \<Rightarrow> nat list" where
  "ranking_from idxs xs = sort_key (\<lambda>i. desc_key (xs ! i)) (idxs (length xs))"

definition lower_first :: "f32 list \<Rightarrow> nat list" where
  "lower_first = ranking_from (\<lambda>n. [0..<n])"

definition middle_first :: "f32 list \<Rightarrow> nat list" where
  "middle_first = ranking_from (\<lambda>n. rotate (n div 2) [0..<n])"

text \<open>
  \<open>torch.multinomial(probs, num_samples=1)\<close>: one index per row, kept as a one-element
  row. A row with an entry that is negative or not finite, or with a sum that is not
  positive, is rejected. The index drawn is the random choice \<open>draw\<close>, a function of
  the row; \<open>valid_draw\<close> says that it only ever draws an index of positive
  probability.
\<close>

fun prob_ok :: "f32 \<Rightarrow> bool" where
  "prob_ok (Finite v) = (0 \<le> v)"
| "prob_ok x = False"

definition multinomial_row :: "(vec \<Rightarrow> nat) \<Rightarrow> f32 list \<Rightarrow> py_error + nat list" where
  "multinomial_row draw ps =
     (if \<not> list_all prob_ok ps \<or> sum_list (finite_part ps) \<le> 0 then Inl InvalidDistribution
      else Inr [draw (finite_part ps)])"

definition torch_multinomial ::
  "(vec \<Rightarrow> nat) \<Rightarrow> f32 list list \<Rightarrow> py_error + nat list list" where
  "torch_multinomial draw probs = sequence_err (map (multinomial_row draw) probs)"

definition valid_draw :: "(vec \<Rightarrow> nat) \<Rightarrow> bool" where
  "valid_draw draw =
     (\<forall>ps. (\<forall>p \<in> set ps. 0 \<le> p) \<and> 0 < sum_list ps
           \<longrightarrow> draw ps < length ps \<and> 0 < ps ! draw ps)"

text \<open>A concrete choice: the first index of positive probability.\<close>

definition draw_first :: "vec \<Rightarrow> nat" where
  "draw_first ps = length (takeWhile (\<lambda>p. p \<le> 0) ps)"

subsection \<open>Layers\<close>

text \<open>
  \<open>nn.Linear\<close>: the weight has one row per output feature; \<open>bias=False\<close> is
  \<open>None\<close>.
\<close>

record Linear =
  weight :: mat
  bias :: "vec option"

definition dot :: "vec \<Rightarrow> vec \<Rightarrow> real" where
  "dot xs ys = sum_list (map2 (*) xs ys)"

definition linear :: "Linear \<Rightarrow> vec \<Rightarrow> vec" where
  "linear m x =
     (let y = map (\<lambda>w. dot w x) (weight m)
      in case bias m of None \<Rightarrow> y | Some b \<Rightarrow> map2 (+) y b)"

text \<open>\<open>nn.LayerNorm\<close> over the last dimension, with the library's \<open>eps = 1e-5\<close>.\<close>

record LayerNorm =
  ln_weight :: vec
  ln_bias :: vec

definition layer_norm :: "LayerNorm \<Rightarrow> vec \<Rightarrow> vec" where
  "layer_norm m x =
     (let n = real (length x);
          mean = sum_list x / n;
          var = sum_list (map (\<lambda>v. (v - mean)\<^sup>2) x) / n
      in map2 (\<lambda>v (g, b). (v - mean) / sqrt (var + 1 / 100000) * g + b)
           x (zip (ln_weight m) (ln_bias m)))"

text \<open>\<open>nn.Embedding\<close>: the rows of the table at the given indices.\<close>

definition embedding :: "mat \<Rightarrow> nat list \<Rightarrow> py_error + mat" where
  "embedding table idxs =
     sequence_err (map (\<lambda>i. if i < length table then Inr (table ! i) else Inl IndexError) idxs)"

text \<open>
  \<open>nn.MultiheadAttention(embed_dim, num_heads, batch_first=True)\<close>, called as
  \<open>mha(x, x, x, attn_mask=attn_mask, need_weights=False)\<close> on one element \<open>x\<close> of the
  batch (one row per position). The input projection is kept as its three chunks. In
  the Boolean \<open>attn_mask\<close>, \<open>True\<close> at \<open>[i][j]\<close> forbids position \<open>i\<close> to attend to
  position \<open>j\<close>: the score there is replaced by \<open>-inf\<close> before the softmax, and its
  exponential is \<open>0\<close>. The mask must have the shape of the score matrix, and every
  row of \<open>x\<close> the width \<open>embed_dim\<close>.
\<close>

record TorchMHA =
  embed_dim :: nat
  num_heads :: nat
  q_proj :: Linear
  k_proj :: Linear
  v_proj :: Linear
  out_proj :: Linear

definition head_slice :: "nat \<Rightarrow> nat \<Rightarrow> vec \<Rightarrow> vec" where
  "head_slice d h v = take d (drop (h * d) v)"

definition masked_softmax :: "bool list \<Rightarrow> vec \<Rightarrow> vec" where
  "masked_softmax m s =
     (let e = map2 (\<lambda>b v. if b then 0 else exp v) m s in map (\<lambda>v. v / sum_list e) e)"

definition attention_weights :: "TorchMHA \<Rightarrow> bool list list \<Rightarrow> mat \<Rightarrow> nat \<Rightarrow> mat" where
  "attention_weights m attn_mask x h =
     (let d = embed_dim m div num_heads m;
          q = map (\<lambda>v. head_slice d h (linear (q_proj m) v)) x;
          k = map (\<lambda>v. head_slice d h (linear (k_proj m) v)) x;
          scores = map (\<lambda>qi. map (\<lambda>kj. dot qi kj / sqrt (real d)) k) q
      in map2 masked_softmax attn_mask scores)"

definition weighted_sum :: "nat \<Rightarrow> vec \<Rightarrow> mat \<Rightarrow> vec" where
  "weighted_sum d w vs =
     foldr (\<lambda>(a, v) acc. map2 (+) (map ((*) a) v) acc) (zip w vs) (replicate d 0)"

definition head_output :: "TorchMHA \<Rightarrow> mat \<Rightarrow> nat \<Rightarrow> mat \<Rightarrow> mat" where
  "head_output m x h w =
     (let d = embed_dim m div num_heads m;
          v = map (\<lambda>u. head_slice d h (linear (v_proj m) u)) x
      in map (\<lambda>wi. weighted_sum d wi v) w)"

text \<open>
  The output of the module from the weights \<open>ws\<close> of its heads: the heads' outputs at a
  position are concatenated and passed through the output projection.
\<close>

definition attention_output :: "TorchMHA \<Rightarrow> mat \<Rightarrow> mat list \<Rightarrow> mat" where
  "attention_output m x ws =
     (let heads_out = map (\<lambda>h. head_output m x h (ws ! h)) [0..<num_heads m]
      in map (\<lambda>i. linear (out_proj m) (concat (map (\<lambda>ho. ho ! i) heads_out)))
           [0..<length x])"

definition torch_mha :: "TorchMHA \<Rightarrow> mat \<Rightarrow> bool list list \<Rightarrow> py_error + mat" where
  "torch_mha m x attn_mask =
     (if length attn_mask \<noteq> length x \<or> (\<exists>r \<in> set attn_mask. length r \<noteq> length x)
         \<or> (\<exists>u \<in> set x. length u \<noteq> embed_dim m)
      then Inl ShapeError
      else Inr (attention_output m x
                  (map (attention_weights m attn_mask x) [0..<num_heads m])))"

text \<open>
  \<open>F.cross_entropy(input, target)\<close> with the default mean reduction: \<open>input\<close> has one
  row of class scores per sample, \<open>target\<close> one class index per sample. The mean over
  no sample at all is \<open>nan\<close>.
\<close>

definition nll :: "vec \<Rightarrow> nat \<Rightarrow> real" where
  "nll scores t = - ln (softmax scores ! t)"

definition cross_entropy :: "mat \<Rightarrow> nat list \<Rightarrow> py_error + real" where
  "cross_entropy input target =
     (if length input \<noteq> length target then Inl ShapeError
      else if \<exists>(scores, t) \<in> set (zip input target). length scores \<le> t then Inl IndexError
      else if input = [] then Inl NanValue
      else Inr (sum_list (map2 nll input target) / real (length input)))"

section \<open>Model architecture\<close>

text \<open>
  Each module is a record of its parameters and buffers, and its \<open>forward\<close> a function.
  \<open>MultiheadAttention\<close> and \<open>Block\<close> treat the elements of a batch independently;
  their \<open>forward\<close> is given for one element, a matrix with one row per position.
  Four fields are renamed, their names being taken: \<open>context\<close> of the configuration
  is \<open>context_length\<close>, \<open>context\<close> of the attention module is \<open>att_context\<close>,
  \<open>mha\<close> of a block is \<open>blk_mha\<close>, and \<open>output\<close> of the model is \<open>output_head\<close>.
\<close>

record ModelConfig =
  vocab :: nat
  emb_dim :: nat
  heads :: nat
  layers :: nat
  context_length :: nat

subsection \<open>\<open>MultiheadAttention\<close>\<close>

record MultiheadAttention =
  att_context :: nat
  mha :: TorchMHA
  proj :: Linear
  mask :: "bool list list"

text \<open>\<open>torch.triu(torch.ones(n, n), diagonal=1).bool()\<close>: true strictly above the diagonal.\<close>

definition triu_mask :: "nat \<Rightarrow> bool list list" where
  "triu_mask n = map (\<lambda>i. map (\<lambda>j. i < j) [0..<n]) [0..<n]"

text \<open>
  \<open>__init__\<close>. A library module creates its parameters in the shapes its arguments
  say, with values of its own choosing: \<open>mk_linear\<close> is \<open>nn.Linear(n_in, n_out)\<close>
  with the initial weight at \<open>[r][c]\<close> and the initial bias at \<open>[r]\<close> given by the
  two functions. \<open>emb_dim % heads\<close> divides by zero when \<open>heads\<close> is \<open>0\<close>, and
  \<open>nn.MultiheadAttention\<close> refuses an embedding dimension of \<open>0\<close>.
\<close>

type_synonym linear_init = "(nat \<Rightarrow> nat \<Rightarrow> real) \<times> (nat \<Rightarrow> real)"

definition mk_linear :: "nat \<Rightarrow> nat \<Rightarrow> linear_init \<Rightarrow> Linear" where
  "mk_linear n_in n_out init =
     \<lparr>weight = map (\<lambda>r. map (fst init r) [0..<n_in]) [0..<n_out],
      bias = Some (map (snd init) [0..<n_out])\<rparr>"

definition MultiheadAttention_init ::
  "nat \<Rightarrow> nat \<Rightarrow> nat \<Rightarrow> linear_init \<Rightarrow> linear_init \<Rightarrow> linear_init \<Rightarrow> linear_init
     \<Rightarrow> linear_init \<Rightarrow> py_error + MultiheadAttention" where
  "MultiheadAttention_init emb heads_n ctx q0 k0 v0 o0 p0 =
     (if heads_n = 0 then Inl ZeroDivisionError
      else if emb mod heads_n \<noteq> 0 then Inl AssertionError
      else if emb = 0 then Inl ValueError
      else Inr \<lparr>att_context = ctx,
                mha = \<lparr>embed_dim = emb, num_heads = heads_n,
                        q_proj = mk_linear emb emb q0, k_proj = mk_linear emb emb k0,
                        v_proj = mk_linear emb emb v0, out_proj = mk_linear emb emb o0\<rparr>,
                proj = mk_linear emb emb p0,
                mask = triu_mask ctx\<rparr>)"

text \<open>\<open>self.mask[:seq_len, :seq_len]\<close>\<close>

definition mask_slice :: "MultiheadAttention \<Rightarrow> nat \<Rightarrow> bool list list" where
  "mask_slice self seq_len = map (take seq_len) (take seq_len (mask self))"

definition MultiheadAttention_forward :: "MultiheadAttention \<Rightarrow> mat \<Rightarrow> py_error + mat" where
  "MultiheadAttention_forward self x =
     (let seq_len = min (length x) (att_context self);
          attn_mask = mask_slice self seq_len
      in bind_err (torch_mha (mha self) x attn_mask)
           (\<lambda>attn_out. Inr (map (linear (proj self)) attn_out)))"

subsection \<open>\<open>Block\<close>\<close>

text \<open>
  \<open>self.mlp\<close> is \<open>Linear\<close>, \<open>GELU\<close>, \<open>Linear\<close>; the activation is the field \<open>mlp_act\<close>,
  applied to every entry.
\<close>

record Block =
  blk_mha :: MultiheadAttention
  mlp_fc1 :: Linear
  mlp_act :: "real \<Rightarrow> real"
  mlp_fc2 :: Linear
  sa_norm :: LayerNorm
  mlp_norm :: LayerNorm

definition mlp :: "Block \<Rightarrow> vec \<Rightarrow> vec" where
  "mlp self v = linear (mlp_fc2 self) (map (mlp_act self) (linear (mlp_fc1 self) v))"

definition add_mat :: "mat \<Rightarrow> mat \<Rightarrow> mat" where
  "add_mat a b = map2 (map2 (+)) a b"

definition Block_forward :: "Block \<Rightarrow> mat \<Rightarrow> py_error + mat" where
  "Block_forward self x =
     bind_err (MultiheadAttention_forward (blk_mha self) (map (layer_norm (sa_norm self)) x))
       (\<lambda>a. let x1 = add_mat x a;
                 x2 = add_mat x1 (map (\<lambda>v. mlp self (layer_norm (mlp_norm self) v)) x1)
             in Inr x2)"

subsection \<open>\<open>GPT\<close>\<close>

text \<open>
  A tensor of token ids of shape \<open>[length rows, ncols]\<close>. \<open>torch.tensor\<close> gives an
  empty Python list a floating type, and an embedding lookup rejects such an index
  tensor.
\<close>

datatype dtype = Long | Float

record id_tensor =
  dtype :: dtype
  rows :: "nat list list"
  ncols :: nat

record GPT =
  pos_embedding :: mat
  tok_embedding :: mat
  decoder :: "Block list"
  output_head :: Linear
  norm :: LayerNorm

fun decoder_forward :: "Block list \<Rightarrow> mat \<Rightarrow> py_error + mat" where
  "decoder_forward [] x = Inr x"
| "decoder_forward (b # bs) x = bind_err (Block_forward b x) (decoder_forward bs)"

text \<open>
  \<open>GPT.forward\<close>. In \<open>self.tok_embedding(x) + self.pos_embedding(pos)\<close> the token
  lookup is evaluated first; the sum adds the positional rows to every element of the
  batch.
\<close>

definition GPT_forward :: "GPT \<Rightarrow> id_tensor \<Rightarrow> py_error + mat list" where
  "GPT_forward self x =
     (let seq_len = ncols x;
          pos = [0..<seq_len]
      in bind_err (if dtype x = Float then Inl DTypeError
                   else sequence_err (map (embedding (tok_embedding self)) (rows x)))
           (\<lambda>tok. bind_err (embedding (pos_embedding self) pos)
           (\<lambda>pe. bind_err (sequence_err (map (\<lambda>t. decoder_forward (decoder self) (add_mat t pe)) tok))
           (\<lambda>h. Inr (map (map (\<lambda>v. linear (output_head self) (layer_norm (norm self) v))) h)))))"

subsection \<open>What the constructors establish\<close>

text \<open>
  The shapes of the parameters that \<open>GPT(config)\<close> creates, and the buffers it
  registers.
\<close>

definition wf_Linear :: "nat \<Rightarrow> nat \<Rightarrow> bool \<Rightarrow> Linear \<Rightarrow> bool" where
  "wf_Linear n_in n_out has_bias m =
     (length (weight m) = n_out \<and> list_all (\<lambda>w. length w = n_in) (weight m)
      \<and> (case bias m of None \<Rightarrow> \<not> has_bias | Some b \<Rightarrow> has_bias \<and> length b = n_out))"

definition wf_LayerNorm :: "nat \<Rightarrow> LayerNorm \<Rightarrow> bool" where
  "wf_LayerNorm n m = (length (ln_weight m) = n \<and> length (ln_bias m) = n)"

definition wf_MultiheadAttention :: "ModelConfig \<Rightarrow> MultiheadAttention \<Rightarrow> bool" where
  "wf_MultiheadAttention cfg self =
     (att_context self = context_length cfg \<and> mask self = triu_mask (context_length cfg)
      \<and> embed_dim (mha self) = emb_dim cfg \<and> num_heads (mha self) = heads cfg
      \<and> wf_Linear (emb_dim cfg) (emb_dim cfg) True (q_proj (mha self))
      \<and> wf_Linear (emb_dim cfg) (emb_dim cfg) True (k_proj (mha self))
      \<and> wf_Linear (emb_dim cfg) (emb_dim cfg) True (v_proj (mha self))
      \<and> wf_Linear (emb_dim cfg) (emb_dim cfg) True (out_proj (mha self))
      \<and> wf_Linear (emb_dim cfg) (emb_dim cfg) True (proj self))"

definition wf_Block :: "ModelConfig \<Rightarrow> Block \<Rightarrow> bool" where
  "wf_Block cfg self =
     (wf_MultiheadAttention cfg (blk_mha self)
      \<and> wf_Linear (emb_dim cfg) (4 * emb_dim cfg) True (mlp_fc1 self)
      \<and> wf_Linear (4 * emb_dim cfg) (emb_dim cfg) True (mlp_fc2 self)
      \<and> wf_LayerNorm (emb_dim cfg) (sa_norm self)
      \<and> wf_LayerNorm (emb_dim cfg) (mlp_norm self))"

definition wf_config :: "ModelConfig \<Rightarrow> bool" where
  "wf_config cfg =
     (0 < vocab cfg \<and> 0 < emb_dim cfg \<and> 0 < heads cfg \<and> 0 < layers cfg \<and> 0 < context_length cfg
      \<and> emb_dim cfg mod heads cfg = 0)"

definition wf_GPT :: "ModelConfig \<Rightarrow> GPT \<Rightarrow> bool" where
  "wf_GPT cfg self =
     (wf_config cfg
      \<and> length (pos_embedding self) = context_length cfg
      \<and> list_all (\<lambda>r. length r = emb_dim cfg) (pos_embedding self)
      \<and> length (tok_embedding self) = vocab cfg
      \<and> list_all (\<lambda>r. length r = emb_dim cfg) (tok_embedding self)
      \<and> length (decoder self) = layers cfg
      \<and> list_all (wf_Block cfg) (decoder self)
      \<and> wf_Linear (emb_dim cfg) (vocab cfg) False (output_head self)
      \<and> wf_LayerNorm (emb_dim cfg) (norm self))"

text \<open>A tensor of token ids of a given shape, every id below the vocabulary size.\<close>

definition wf_ids :: "nat \<Rightarrow> nat \<Rightarrow> nat \<Rightarrow> id_tensor \<Rightarrow> bool" where
  "wf_ids V B T x =
     (dtype x = Long \<and> length (rows x) = B \<and> ncols x = T
      \<and> list_all (\<lambda>r. length r = T \<and> list_all (\<lambda>t. t < V) r) (rows x))"

section \<open>The dataset: \<open>WikiTextDataset\<close>\<close>

text \<open>
  Python's slice \<open>xs[lo:hi]\<close> on a list: a negative bound counts from the end, and
  every bound is clamped into \<open>0..len(xs)\<close>.
\<close>

definition py_bound :: "int \<Rightarrow> int \<Rightarrow> nat" where
  "py_bound n k = nat (if k < 0 then max 0 (k + n) else min k n)"

definition py_slice :: "'a list \<Rightarrow> int \<Rightarrow> int \<Rightarrow> 'a list" where
  "py_slice xs lo hi =
     (let n = int (length xs); a = py_bound n lo; b = py_bound n hi
      in take (b - a) (drop a xs))"

text \<open>\<open>[v] * n\<close>: a list repeated a non-positive number of times is empty.\<close>

definition py_repeat :: "'a \<Rightarrow> int \<Rightarrow> 'a list" where
  "py_repeat v n = replicate (nat n) v"

record WikiTextDataset =
  tokens :: "nat list"
  max_len :: int

text \<open>
  \<open>__getitem__\<close>; \<open>eot\<close> is the tokenizer's \<open>eot_token\<close>. The two results are the lists
  handed to \<open>torch.tensor\<close>.
\<close>

definition getitem :: "nat \<Rightarrow> WikiTextDataset \<Rightarrow> int \<Rightarrow> nat list \<times> nat list" where
  "getitem eot self idx0 =
     (let idx = idx0 * max_len self;
          x = py_slice (tokens self) idx (idx + max_len self);
          y = py_slice (tokens self) (idx + 1) (idx + 1 + max_len self);
          x' = (if int (length x) < max_len self
                then x @ py_repeat eot (max_len self - int (length x)) else x);
          y' = (if int (length y) < max_len self
                then y @ py_repeat eot (max_len self - int (length y)) else y)
      in (x', y'))"

text \<open>
  \<open>__len__\<close> is \<open>math.ceil(len(self.tokens) / self.max_len)\<close>: true division, read
  here over the reals, then the ceiling.
\<close>

definition ds_len :: "WikiTextDataset \<Rightarrow> py_error + int" where
  "ds_len self =
     (if max_len self = 0 then Inl ZeroDivisionError
      else Inr \<lceil>real (length (tokens self)) / real_of_int (max_len self)\<rceil>)"

section \<open>Top-k probabilities: \<open>topk\<close>\<close>

text \<open>
  The assignment \<open>probs[:, topk_idxs] = vals\<close> with a two-dimensional index tensor
  writes, in every row of \<open>probs\<close>, the value at \<open>[b, j]\<close> into the column
  \<open>topk_idxs[b, j]\<close>, for all \<open>b\<close> and \<open>j\<close>: the row of \<open>probs\<close> does not select the
  row of the index tensor. \<open>index_put_cols\<close> is that assignment on one row, the index
  and value tensors flattened in row-major order. Where two writes go to the same
  column the library does not say which one stays; here the later one does.
\<close>

definition index_put_cols :: "'a list \<Rightarrow> nat list \<Rightarrow> 'a list \<Rightarrow> 'a list" where
  "index_put_cols row idxs vals = fold (\<lambda>(i, v) r. r[i := v]) (zip idxs vals) row"

text \<open>
  \<open>topk(logits, k)\<close>; \<open>order\<close> is the order in which \<open>torch.topk\<close> ranks a row.
\<close>

definition topk ::
  "(f32 list \<Rightarrow> nat list) \<Rightarrow> f32 list list \<Rightarrow> int \<Rightarrow> py_error + f32 list list" where
  "topk order logits k =
     bind_err (torch_topk order logits k) (\<lambda>(topk_vals, topk_idxs).
       let probs = map (map (\<lambda>_. Finite 0)) logits
       in Inr (map (\<lambda>row. index_put_cols row (concat topk_idxs)
                             (concat (map softmax_f32 topk_vals))) probs))"

section \<open>Choosing the next token\<close>

text \<open>
  The four versions of \<open>generate\<close> differ only in the lines that turn \<open>logits\<close>, the
  scores of the last position of every element of the batch, into \<open>next_idx\<close>:
  \<^item> \<open>torch.argmax(logits, dim=-1, keepdim=True)\<close>;
  \<^item> \<open>torch.multinomial(torch.softmax(logits, dim=-1), num_samples=1)\<close>;
  \<^item> the same on \<open>logits / temp\<close>;
  \<^item> \<open>torch.multinomial(topk(logits / temp), num_samples=1)\<close>.

  The logits and the temperature are finite numbers. \<open>logits / temp\<close> raises nothing,
  whatever \<open>temp\<close> is: its entries that leave the finite range are infinities or
  \<open>nan\<close>, and what the softmax makes of them decides whether \<open>torch.multinomial\<close>
  raises.
\<close>

definition div_temp :: "mat \<Rightarrow> real \<Rightarrow> f32 list list" where
  "div_temp logits temp = map (map (\<lambda>v. f32_div v temp)) logits"

definition next_greedy :: "mat \<Rightarrow> py_error + nat list list" where
  "next_greedy logits = torch_argmax logits"

definition next_sample :: "(vec \<Rightarrow> nat) \<Rightarrow> mat \<Rightarrow> py_error + nat list list" where
  "next_sample draw logits =
     torch_multinomial draw (map (\<lambda>row. softmax_f32 (map Finite row)) logits)"

definition next_temperature :: "(vec \<Rightarrow> nat) \<Rightarrow> real \<Rightarrow> mat \<Rightarrow> py_error + nat list list" where
  "next_temperature draw temp logits =
     torch_multinomial draw (map softmax_f32 (div_temp logits temp))"

definition next_topk ::
  "(f32 list \<Rightarrow> nat list) \<Rightarrow> (vec \<Rightarrow> nat) \<Rightarrow> int \<Rightarrow> real \<Rightarrow> mat
     \<Rightarrow> py_error + nat list list" where
  "next_topk order draw k temp logits =
     bind_err (topk order (div_temp logits temp) k) (torch_multinomial draw)"

text \<open>
  A temperature keeps a row of logits finite when the reciprocal of the temperature
  and every quotient are finite: the division may be computed as such or as the
  product with the reciprocal.
\<close>

definition finite_quotients :: "real \<Rightarrow> vec \<Rightarrow> bool" where
  "finite_quotients temp row =
     (is_finite (f32_div 1 temp) \<and> list_all (\<lambda>v. is_finite (f32_div v temp)) row)"

section \<open>Generation: \<open>generate\<close>\<close>

record tokenizer =
  encode :: "string \<Rightarrow> nat list"
  decode :: "nat list \<Rightarrow> string"

text \<open>\<open>torch.tensor(tokenizer.encode(prefix), device=device).unsqueeze(0)\<close>\<close>

definition prefix_tensor :: "nat list \<Rightarrow> id_tensor" where
  "prefix_tensor ids =
     \<lparr>dtype = (if ids = [] then Float else Long), rows = [ids], ncols = length ids\<rparr>"

text \<open>\<open>logits[:, -1, :]\<close>: the last position of every element of the batch.\<close>

definition last_position :: "mat list \<Rightarrow> py_error + mat" where
  "last_position logits =
     sequence_err (map (\<lambda>m. if m = [] then Inl IndexError else Inr (last m)) logits)"

text \<open>\<open>torch.cat((token_ids, next_idx), dim=1)\<close>\<close>

definition cat_dim1 :: "id_tensor \<Rightarrow> nat list list \<Rightarrow> id_tensor" where
  "cat_dim1 token_ids next_idx =
     \<lparr>dtype = dtype token_ids,
      rows = map2 (@) (rows token_ids) next_idx,
      ncols = ncols token_ids + 1\<rparr>"

text \<open>
  The loop \<open>for _ in range(max_new_tokens)\<close>, common to the four versions, for a
  number of iterations that is a natural number (a negative \<open>max_new_tokens\<close> runs
  none). Its state is the pair of \<open>token_ids\<close> and \<open>prefix\<close>; \<open>pick step\<close> is the
  version's choice of \<open>next_idx\<close> in iteration \<open>step\<close>. Every iteration passes the
  whole of \<open>token_ids\<close> to the model.
\<close>

fun generate_loop ::
  "GPT \<Rightarrow> tokenizer \<Rightarrow> (nat \<Rightarrow> mat \<Rightarrow> py_error + nat list list) \<Rightarrow> nat \<Rightarrow> nat
     \<Rightarrow> id_tensor \<times> string \<Rightarrow> py_error + id_tensor \<times> string" where
  "generate_loop model tok pick step 0 st = Inr st"
| "generate_loop model tok pick step (Suc n) (token_ids, prefix) =
     bind_err (GPT_forward model token_ids)
       (\<lambda>logits. bind_err (last_position logits)
       (\<lambda>logits. bind_err (pick step logits)
       (\<lambda>next_idx. generate_loop model tok pick (Suc step) n
                     (cat_dim1 token_ids next_idx, prefix @ decode tok (concat next_idx)))))"

text \<open>
  The state in which a call of \<open>generate\<close> leaves its loop, for the first version
  (greedy) and the last one (top-k with the default \<open>k = 5\<close>, which \<open>generate\<close> never
  overrides); \<open>draws step\<close> is the random choice of iteration \<open>step\<close>, and \<open>order\<close> the
  order in which \<open>torch.topk\<close> ranks a row.
\<close>

definition run_generate_greedy ::
  "GPT \<Rightarrow> tokenizer \<Rightarrow> string \<Rightarrow> nat \<Rightarrow> py_error + id_tensor \<times> string" where
  "run_generate_greedy model tok prefix max_new_tokens =
     generate_loop model tok (\<lambda>step. next_greedy) 0 max_new_tokens
       (prefix_tensor (encode tok prefix), prefix)"

definition run_generate_sample ::
  "GPT \<Rightarrow> tokenizer \<Rightarrow> (nat \<Rightarrow> vec \<Rightarrow> nat) \<Rightarrow> string \<Rightarrow> nat
     \<Rightarrow> py_error + id_tensor \<times> string" where
  "run_generate_sample model tok draws prefix max_new_tokens =
     generate_loop model tok (\<lambda>step. next_sample (draws step)) 0 max_new_tokens
       (prefix_tensor (encode tok prefix), prefix)"

definition run_generate_temperature ::
  "GPT \<Rightarrow> tokenizer \<Rightarrow> (nat \<Rightarrow> vec \<Rightarrow> nat) \<Rightarrow> string \<Rightarrow> nat \<Rightarrow> real
     \<Rightarrow> py_error + id_tensor \<times> string" where
  "run_generate_temperature model tok draws prefix max_new_tokens temp =
     generate_loop model tok (\<lambda>step. next_temperature (draws step) temp) 0 max_new_tokens
       (prefix_tensor (encode tok prefix), prefix)"

definition pick_topk ::
  "(f32 list \<Rightarrow> nat list) \<Rightarrow> (nat \<Rightarrow> vec \<Rightarrow> nat) \<Rightarrow> real \<Rightarrow> nat \<Rightarrow> mat
     \<Rightarrow> py_error + nat list list" where
  "pick_topk order draws temp step = next_topk order (draws step) 5 temp"

definition run_generate_topk ::
  "GPT \<Rightarrow> tokenizer \<Rightarrow> (f32 list \<Rightarrow> nat list) \<Rightarrow> (nat \<Rightarrow> vec \<Rightarrow> nat) \<Rightarrow> string \<Rightarrow> nat
     \<Rightarrow> real \<Rightarrow> py_error + id_tensor \<times> string" where
  "run_generate_topk model tok order draws prefix max_new_tokens temp =
     generate_loop model tok (pick_topk order draws temp) 0 max_new_tokens
       (prefix_tensor (encode tok prefix), prefix)"

text \<open>\<open>generate\<close> returns the text.\<close>

definition generate_greedy :: "GPT \<Rightarrow> tokenizer \<Rightarrow> string \<Rightarrow> nat \<Rightarrow> py_error + string" where
  "generate_greedy model tok prefix max_new_tokens =
     map_sum id snd (run_generate_greedy model tok prefix max_new_tokens)"

definition generate_topk ::
  "GPT \<Rightarrow> tokenizer \<Rightarrow> (f32 list \<Rightarrow> nat list) \<Rightarrow> (nat \<Rightarrow> vec \<Rightarrow> nat) \<Rightarrow> string \<Rightarrow> nat
     \<Rightarrow> real \<Rightarrow> py_error + string" where
  "generate_topk model tok order draws prefix max_new_tokens temp =
     map_sum id snd (run_generate_topk model tok order draws prefix max_new_tokens temp)"

text \<open>
  Two properties of a way to choose the next token, used to state what the loop does:
  on a batch of one element it returns one token id; on one row of \<open>V\<close> scores that
  satisfies \<open>Q\<close> it returns one token id below \<open>V\<close>. \<open>finite_scores\<close> says of a model
  that the temperature keeps every row of logits it computes finite.
\<close>

definition one_token :: "(nat \<Rightarrow> mat \<Rightarrow> py_error + nat list list) \<Rightarrow> bool" where
  "one_token pick =
     (\<forall>step logits out. length logits = 1 \<and> pick step logits = Inr out \<longrightarrow> (\<exists>i. out = [[i]]))"

definition total_on ::
  "nat \<Rightarrow> (vec \<Rightarrow> bool) \<Rightarrow> (nat \<Rightarrow> mat \<Rightarrow> py_error + nat list list) \<Rightarrow> bool" where
  "total_on V Q pick =
     (\<forall>step row. length row = V \<and> Q row \<longrightarrow> (\<exists>i < V. pick step [row] = Inr [[i]]))"

definition scores_satisfy :: "GPT \<Rightarrow> (vec \<Rightarrow> bool) \<Rightarrow> bool" where
  "scores_satisfy model Q =
     (\<forall>x logits. GPT_forward model x = Inr logits \<longrightarrow> list_all (list_all Q) logits)"

definition finite_scores :: "GPT \<Rightarrow> real \<Rightarrow> bool" where
  "finite_scores model temp = scores_satisfy model (finite_quotients temp)"

section \<open>The loss of a training step\<close>

text \<open>
  \<open>logits = model(x)\<close> and
  \<open>loss = F.cross_entropy(logits.flatten(0, 1), y.flatten())\<close>: the first flattening
  lists the score rows of all positions of all elements of the batch, the second the
  targets, in the same order.
\<close>

definition training_loss :: "GPT \<Rightarrow> id_tensor \<Rightarrow> id_tensor \<Rightarrow> py_error + real" where
  "training_loss model x y =
     bind_err (GPT_forward model x)
       (\<lambda>logits. cross_entropy (concat logits) (concat (rows y)))"

section \<open>A small model\<close>

text \<open>
  A model small enough to run by hand: vocabulary \<open>5\<close>, embedding dimension \<open>2\<close>, one
  head, one block, context length \<open>3\<close>, every weight \<open>0\<close> and every normalisation scale
  \<open>1\<close>. Its activation is the \<open>tanh\<close> form of GELU. Its tokenizer maps a character to
  its code modulo \<open>5\<close>.
\<close>

definition toy_config :: ModelConfig where
  "toy_config = \<lparr>vocab = 5, emb_dim = 2, heads = 1, layers = 1, context_length = 3\<rparr>"

definition zeros_linear :: "nat \<Rightarrow> nat \<Rightarrow> bool \<Rightarrow> Linear" where
  "zeros_linear n_in n_out has_bias =
     \<lparr>weight = replicate n_out (replicate n_in 0),
      bias = (if has_bias then Some (replicate n_out 0) else None)\<rparr>"

definition zero_init :: linear_init where
  "zero_init = (\<lambda>r c. 0, \<lambda>r. 0)"

definition ones_norm :: "nat \<Rightarrow> LayerNorm" where
  "ones_norm n = \<lparr>ln_weight = replicate n 1, ln_bias = replicate n 0\<rparr>"

definition gelu_tanh :: "real \<Rightarrow> real" where
  "gelu_tanh x = x * (1 + tanh (sqrt (2 / pi) * (x + 44715 / 1000000 * x ^ 3))) / 2"

definition toy_attention :: MultiheadAttention where
  "toy_attention =
     \<lparr>att_context = 3,
      mha = \<lparr>embed_dim = 2, num_heads = 1,
              q_proj = zeros_linear 2 2 True, k_proj = zeros_linear 2 2 True,
              v_proj = zeros_linear 2 2 True, out_proj = zeros_linear 2 2 True\<rparr>,
      proj = zeros_linear 2 2 True,
      mask = triu_mask 3\<rparr>"

definition toy_block :: Block where
  "toy_block =
     \<lparr>blk_mha = toy_attention,
      mlp_fc1 = zeros_linear 2 8 True, mlp_act = gelu_tanh, mlp_fc2 = zeros_linear 8 2 True,
      sa_norm = ones_norm 2, mlp_norm = ones_norm 2\<rparr>"

definition toy_gpt :: GPT where
  "toy_gpt =
     \<lparr>pos_embedding = replicate 3 [0, 0],
      tok_embedding = replicate 5 [0, 0],
      decoder = [toy_block],
      output_head = zeros_linear 2 5 False,
      norm = ones_norm 2\<rparr>"

definition toy_tokenizer :: tokenizer where
  "toy_tokenizer =
     \<lparr>encode = map (\<lambda>c. (of_char c :: nat) mod 5),
      decode = map (\<lambda>t. char_of (97 + t))\<rparr>"

text \<open>The random choices that always draw the first index of positive probability.\<close>

definition first_draws :: "nat \<Rightarrow> vec \<Rightarrow> nat" where
  "first_draws step = draw_first"

section \<open>Properties of the dataset\<close>

lemma py_slice_nonneg:
  assumes "0 \<le> lo" "0 \<le> len"
  shows "py_slice xs lo (lo + len) = take (nat len) (drop (nat lo) xs)"
proof (cases "lo \<le> int (length xs)")
  case True
  have "nat (min (lo + len) (int (length xs))) - nat lo = min (nat len) (length xs - nat lo)"
    using assms True by (simp add: min_def nat_diff_distrib) linarith
  then show ?thesis
    using assms True by (simp add: py_slice_def py_bound_def Let_def min_def)
next
  case False
  then show ?thesis
    using assms by (simp add: py_slice_def py_bound_def Let_def min_def)
qed

lemma padded_nth:
  assumes "j < n"
  shows "(take n ys @ replicate (n - length (take n ys)) e) ! j
           = (if j < length ys then ys ! j else e)"
  using assms by (auto simp: nth_append min_def)

lemma ceiling_div_nat:
  assumes "0 < L"
  shows "\<lceil>real T / real L\<rceil> = int ((T + L - 1) div L)"
proof -
  define q where "q = (T + L - 1) div L"
  define r where "r = (T + L - 1) mod L"
  have eq: "q * L + r = T + L - 1"
    unfolding q_def r_def by simp
  have r: "r < L"
    unfolding r_def using assms by simp
  have a: "T \<le> q * L" using eq r assms by linarith
  have b: "q * L < T + L" using eq r assms by linarith
  have "real T \<le> real (q * L)" using a by (rule of_nat_mono)
  then have u: "real T / real L \<le> real q"
    using assms by (simp add: pos_divide_le_eq)
  have "real (q * L) < real (T + L)" using b by (rule less_imp_of_nat_less)
  then have "(real q - 1) * real L < real T" by (simp add: algebra_simps)
  then have l: "real q - 1 < real T / real L"
    using assms by (simp add: pos_less_divide_eq)
  have "\<lceil>real T / real L\<rceil> = int q"
    by (rule ceiling_unique) (use u l in simp_all)
  then show ?thesis by (simp add: q_def)
qed

lemma getitem_window:
  fixes L i :: nat and ts :: "nat list"
  assumes "0 < L"
  shows "getitem eot \<lparr>tokens = ts, max_len = int L\<rparr> (int i)
           = (take L (drop (i * L) ts) @ replicate (L - length (take L (drop (i * L) ts))) eot,
              take L (drop (i * L + 1) ts)
                @ replicate (L - length (take L (drop (i * L + 1) ts))) eot)"
proof -
  let ?x = "take L (drop (i * L) ts)"
  let ?y = "take L (drop (i * L + 1) ts)"
  have sx: "py_slice ts (int i * int L) (int i * int L + int L) = ?x"
    using py_slice_nonneg [of "int i * int L" "int L" ts]
    by (simp add: nat_mult_distrib)
  have sy: "py_slice ts (int i * int L + 1) (int i * int L + 1 + int L) = ?y"
    using py_slice_nonneg [of "int i * int L + 1" "int L" ts]
    by (simp add: nat_mult_distrib nat_add_distrib)
  have px: "(if int (length ?x) < int L then ?x @ py_repeat eot (int L - int (length ?x)) else ?x)
              = ?x @ replicate (L - length ?x) eot"
    by (auto simp: py_repeat_def min_def)
  have py: "(if int (length ?y) < int L then ?y @ py_repeat eot (int L - int (length ?y)) else ?y)
              = ?y @ replicate (L - length ?y) eot"
    by (auto simp: py_repeat_def min_def)
  show ?thesis
    unfolding getitem_def Let_def
    by (simp only: WikiTextDataset.simps sx sy px py)
qed

text \<open>
  Claim C9. With a positive stride \<open>L\<close> and an item index \<open>i\<close> that is valid
  (\<open>0 \<le> i < len(ds)\<close>), item \<open>i\<close> is the pair of \<open>tokens[i*L : i*L+L]\<close> and
  \<open>tokens[i*L+1 : i*L+1+L]\<close>, each of length \<open>L\<close> after right-padding with the
  end-of-text id: position \<open>j\<close> of the input is token \<open>i*L+j\<close> where the corpus has one
  and the end-of-text id otherwise, and position \<open>j\<close> of the target is token
  \<open>i*L+1+j\<close> likewise. The number of items is the ceiling of \<open>T / L\<close>.
\<close>

theorem dataset_item_and_count:
  fixes L i :: nat and ts :: "nat list"
  assumes "0 < L"
    and "ds_len \<lparr>tokens = ts, max_len = int L\<rparr> = Inr n"
    and "int i < n"
  shows "(let item = getitem eot \<lparr>tokens = ts, max_len = int L\<rparr> (int i) in
            length (fst item) = L \<and> length (snd item) = L
          \<and> (\<forall>j<L. fst item ! j = (if i * L + j < length ts then ts ! (i * L + j) else eot))
          \<and> (\<forall>j<L. snd item ! j
                       = (if i * L + 1 + j < length ts then ts ! (i * L + 1 + j) else eot)))
       \<and> n = \<lceil>real (length ts) / real L\<rceil>
       \<and> n = int ((length ts + L - 1) div L)"
proof -
  let ?ds = "\<lparr>tokens = ts, max_len = int L\<rparr>"
  note g = getitem_window [OF assms(1), of eot ts i]
  have l1: "length (fst (getitem eot ?ds (int i))) = L"
    unfolding g by (simp add: min_def)
  have l2: "length (snd (getitem eot ?ds (int i))) = L"
    unfolding g by (simp add: min_def)
  have e1: "\<forall>j<L. fst (getitem eot ?ds (int i)) ! j
                 = (if i * L + j < length ts then ts ! (i * L + j) else eot)"
    unfolding g fst_conv using padded_nth [of _ L "drop (i * L) ts" eot]
    by (auto simp: add.commute)
  have e2: "\<forall>j<L. snd (getitem eot ?ds (int i)) ! j
                 = (if i * L + 1 + j < length ts then ts ! (i * L + 1 + j) else eot)"
    unfolding g snd_conv using padded_nth [of _ L "drop (i * L + 1) ts" eot]
    by (auto simp: add.commute add.left_commute)
  have n: "n = \<lceil>real (length ts) / real L\<rceil>"
    using assms(1,2) by (simp add: ds_len_def)
  have n': "n = int ((length ts + L - 1) div L)"
    unfolding n using ceiling_div_nat [OF assms(1)] by simp
  show ?thesis
    unfolding Let_def using l1 l2 e1 e2 n n' by blast
qed

theorem dataset_item_and_count_witness:
  "ds_len \<lparr>tokens = [11, 12, 13, 14, 15], max_len = 2\<rparr> = Inr 3
   \<and> getitem 99 \<lparr>tokens = [11, 12, 13, 14, 15], max_len = 2\<rparr> 2 = ([15, 99], [99, 99])
   \<and> (3::int) = int ((length [11, 12, 13, 14, 15 :: nat] + 2 - 1) div 2)"
proof -
  have d: "ds_len \<lparr>tokens = [11, 12, 13, 14, 15], max_len = int 2\<rparr> = Inr 3"
    by (simp add: ds_len_def)
  have g: "getitem 99 \<lparr>tokens = [11, 12, 13, 14, 15], max_len = 2\<rparr> 2 = ([15, 99], [99, 99])"
    by (simp add: getitem_def py_slice_def py_bound_def py_repeat_def Let_def eval_nat_numeral)
  show ?thesis
    using dataset_item_and_count [of 2 "[11, 12, 13, 14, 15]" 3 2 99] d g by simp
qed

section \<open>Lists, sums and sequencing\<close>

lemma sum_list_exp_nonneg: "0 \<le> sum_list (map exp (xs :: real list))"
  by (rule sum_list_nonneg) auto

lemma sum_list_exp_pos: "xs \<noteq> [] \<Longrightarrow> 0 < sum_list (map exp (xs :: real list))"
  using sum_list_exp_nonneg by (cases xs) (auto intro: add_pos_nonneg)

lemma sum_list_map_divide:
  "sum_list (map (\<lambda>x. f x / (c::real)) xs) = sum_list (map f xs) / c"
  by (induction xs) (simp_all add: add_divide_distrib)

lemma sum_list_all_zero: "(\<forall>x \<in> set xs. x = (0::real)) \<Longrightarrow> sum_list xs = 0"
  by (induction xs) simp_all

lemma sum_list_update_real:
  "i < length (xs :: real list) \<Longrightarrow> sum_list (xs[i := v]) = sum_list xs - xs ! i + v"
proof (induction xs arbitrary: i)
  case Nil
  then show ?case by simp
next
  case (Cons x xs)
  then show ?case by (cases i) simp_all
qed

lemma sequence_err_Inr: "sequence_err rs = Inr ys \<longleftrightarrow> rs = map Inr ys"
proof (induction rs arbitrary: ys)
  case Nil
  then show ?case by auto
next
  case (Cons r rs)
  show ?case
  proof (cases r)
    case (Inl e)
    then show ?thesis by (cases ys) auto
  next
    case (Inr v)
    show ?thesis
    proof (cases "sequence_err rs")
      case (Inl e)
      then have "\<And>zs. rs \<noteq> map Inr zs" using Cons.IH by (metis Inl_Inr_False)
      then show ?thesis using Inr Inl by (cases ys) auto
    next
      case r: (Inr vs)
      then have "rs = map Inr vs" using Cons.IH by simp
      then show ?thesis using Inr r by (cases ys) (auto simp: inj_map_eq_map)
    qed
  qed
qed

lemma sequence_err_map_Inr: "sequence_err (map (\<lambda>x. Inr (f x)) xs) = Inr (map f xs)"
  by (simp add: sequence_err_Inr comp_def)

lemma sequence_err_length: "sequence_err rs = Inr ys \<Longrightarrow> length ys = length rs"
  by (simp add: sequence_err_Inr)

lemma sequence_err_all_ok:
  assumes "\<forall>x \<in> set xs. \<exists>y. f x = Inr y \<and> P y"
  shows "\<exists>ys. sequence_err (map f xs) = Inr ys \<and> length ys = length xs \<and> list_all P ys"
  using assms
proof (induction xs)
  case Nil
  then show ?case by simp
next
  case (Cons x xs)
  then obtain y ys where "f x = Inr y" "P y" "sequence_err (map f xs) = Inr ys"
    "length ys = length xs" "list_all P ys"
    by auto
  then show ?case by simp
qed

lemma sequence_err_fail:
  assumes "\<forall>r \<in> set rs. r = Inl e \<or> (\<exists>v. r = Inr v)" and "Inl e \<in> set rs"
  shows "sequence_err rs = Inl e"
  using assms
proof (induction rs)
  case Nil
  then show ?case by simp
next
  case (Cons r rs)
  show ?case
  proof (cases r)
    case (Inl e')
    then show ?thesis using Cons.prems(1) by auto
  next
    case (Inr v)
    then have "Inl e \<in> set rs" using Cons.prems(2) by auto
    then have "sequence_err rs = Inl e" using Cons by auto
    then show ?thesis using Inr by simp
  qed
qed

section \<open>Properties of the samplers\<close>

subsection \<open>Softmax\<close>

lemma softmax_sum: "xs \<noteq> [] \<Longrightarrow> sum_list (softmax xs) = 1"
  using sum_list_exp_pos [of xs] by (simp add: softmax_def sum_list_map_divide)

lemma softmax_length: "length (softmax xs) = length xs"
  by (simp add: softmax_def)

lemma softmax_pos: "xs \<noteq> [] \<Longrightarrow> p \<in> set (softmax xs) \<Longrightarrow> 0 < p"
  using sum_list_exp_pos [of xs] by (auto simp: softmax_def)

subsection \<open>Rows of finite values\<close>

lemma finite_part_Finite: "finite_part (map Finite vs) = vs"
  by (induction vs) (simp_all add: finite_part_def)

lemma finite_part_none: "\<forall>x \<in> set xs. \<not> is_finite x \<Longrightarrow> finite_part xs = []"
proof (induction xs)
  case Nil
  then show ?case by (simp add: finite_part_def)
next
  case (Cons x xs)
  then have "finite_part xs = []" by simp
  moreover have "\<not> is_finite x" using Cons.prems by simp
  ultimately show ?case by (cases x) (simp_all add: finite_part_def)
qed

lemma softmax_f32_Finite: "softmax_f32 (map Finite vs) = map Finite (softmax vs)"
proof (cases "vs = []")
  case True
  then show ?thesis by (simp add: softmax_f32_def softmax_def finite_part_def)
next
  case False
  have "NaN \<notin> set (map Finite vs)" "PosInf \<notin> set (map Finite vs)" by auto
  then show ?thesis
    using False by (simp add: softmax_f32_def softmax_def finite_part_Finite comp_def)
qed

lemma softmax_f32_none_finite:
  assumes "\<forall>x \<in> set xs. \<not> is_finite x"
  shows "softmax_f32 xs = map (\<lambda>_. NaN) xs"
  by (simp add: softmax_f32_def finite_part_none [OF assms])

lemma list_all_prob_ok_Finite: "list_all prob_ok (map Finite ps) \<longleftrightarrow> (\<forall>p \<in> set ps. 0 \<le> p)"
  by (simp add: list_all_iff)

lemma multinomial_row_Finite:
  "multinomial_row draw (map Finite ps)
     = (if (\<exists>p \<in> set ps. p < 0) \<or> sum_list ps \<le> 0 then Inl InvalidDistribution
        else Inr [draw ps])"
  by (auto simp: multinomial_row_def list_all_prob_ok_Finite finite_part_Finite not_le)

lemma multinomial_row_NaN:
  assumes "NaN \<in> set ps"
  shows "multinomial_row draw ps = Inl InvalidDistribution"
proof -
  have "\<exists>x \<in> set ps. \<not> prob_ok x"
    by (rule bexI [OF _ assms]) simp
  then have "\<not> list_all prob_ok ps" by (simp add: list_all_iff)
  then show ?thesis by (simp add: multinomial_row_def)
qed

lemma f32_div_finite:
  assumes "is_finite (f32_div a b)"
  shows "f32_div a b = Finite (a / b)" and "b \<noteq> 0"
  using assms by (auto simp: f32_div_def f32_of_def split: if_splits)

lemma f32_div_zero: "\<not> is_finite (f32_div a 0)"
  by (simp add: f32_div_def)

lemma finite_quotients_div:
  assumes "finite_quotients temp l"
  shows "map (\<lambda>v. f32_div v temp) l = map Finite (map (\<lambda>v. v / temp) l)" and "temp \<noteq> 0"
proof -
  have "\<forall>v \<in> set l. is_finite (f32_div v temp)"
    using assms by (simp add: finite_quotients_def list_all_iff)
  then show "map (\<lambda>v. f32_div v temp) l = map Finite (map (\<lambda>v. v / temp) l)"
    using f32_div_finite(1) by simp
  show "temp \<noteq> 0"
    using assms f32_div_finite(2) [of 1 temp] by (simp add: finite_quotients_def)
qed

subsection \<open>The column assignment\<close>

lemma index_put_cols_Nil: "index_put_cols row [] vals = row"
  by (simp add: index_put_cols_def)

lemma index_put_cols_Cons:
  "index_put_cols row (i # idxs) (v # vals) = index_put_cols (row[i := v]) idxs vals"
  by (simp add: index_put_cols_def)

lemma index_put_cols_length: "length (index_put_cols row idxs vals) = length row"
proof (induction idxs arbitrary: row vals)
  case Nil
  then show ?case by (simp add: index_put_cols_Nil)
next
  case (Cons i idxs)
  then show ?case by (cases vals) (simp_all add: index_put_cols_Cons index_put_cols_def)
qed

lemma index_put_cols_other:
  "j \<notin> set idxs \<Longrightarrow> index_put_cols row idxs vals ! j = row ! j"
proof (induction idxs arbitrary: row vals)
  case Nil
  then show ?case by (simp add: index_put_cols_Nil)
next
  case (Cons i idxs)
  then show ?case by (cases vals) (simp_all add: index_put_cols_Cons index_put_cols_def)
qed

lemma index_put_cols_hit:
  assumes "distinct idxs" "length vals = length idxs" "\<forall>i \<in> set idxs. i < length row"
    and "a < length idxs"
  shows "index_put_cols row idxs vals ! (idxs ! a) = vals ! a"
  using assms
proof (induction idxs arbitrary: row vals a)
  case Nil
  then show ?case by simp
next
  case (Cons i idxs)
  then obtain v vs where vals: "vals = v # vs" by (cases vals) auto
  show ?case
  proof (cases a)
    case 0
    then show ?thesis
      using Cons.prems by (simp add: vals index_put_cols_Cons index_put_cols_other)
  next
    case (Suc a')
    then show ?thesis
      using Cons.prems Cons.IH [of vs "row[i := v]" a']
      by (simp add: vals index_put_cols_Cons)
  qed
qed

lemma index_put_cols_map:
  "index_put_cols (map f row) idxs (map f vals) = map f (index_put_cols row idxs vals)"
proof (induction idxs arbitrary: row vals)
  case Nil
  then show ?case by (simp add: index_put_cols_Nil)
next
  case (Cons i idxs)
  show ?case
  proof (cases vals)
    case Nil
    then show ?thesis by (simp add: index_put_cols_def)
  next
    case (Cons v vs)
    have "index_put_cols ((map f row)[i := f v]) idxs (map f vs)
            = index_put_cols (map f (row[i := v])) idxs (map f vs)"
      by (simp add: map_update)
    then show ?thesis
      using Cons.IH [of "row[i := v]" vs] by (simp add: Cons index_put_cols_Cons)
  qed
qed

lemma index_put_cols_sum:
  fixes row vals :: "real list"
  assumes "distinct idxs" "length vals = length idxs" "\<forall>i \<in> set idxs. i < length row"
  shows "sum_list (index_put_cols row idxs vals)
           = sum_list row - (\<Sum>i\<leftarrow>idxs. row ! i) + sum_list vals"
  using assms
proof (induction idxs arbitrary: row vals)
  case Nil
  then show ?case by (simp add: index_put_cols_Nil)
next
  case (Cons i idxs)
  then obtain v vs where vals: "vals = v # vs" by (cases vals) auto
  have same: "map (\<lambda>j. row[i := v] ! j) idxs = map (\<lambda>j. row ! j) idxs"
  proof (rule map_cong [OF refl])
    fix j assume "j \<in> set idxs"
    then have "i \<noteq> j" using Cons.prems(1) by auto
    then show "row[i := v] ! j = row ! j" by simp
  qed
  have "sum_list (index_put_cols (row[i := v]) idxs vs)
          = sum_list (row[i := v]) - (\<Sum>j\<leftarrow>idxs. row[i := v] ! j) + sum_list vs"
    using Cons.prems by (intro Cons.IH) (simp_all add: vals)
  then show ?case
    using Cons.prems(3) by (simp add: vals index_put_cols_Cons same sum_list_update_real)
qed

subsection \<open>The \<open>k\<close> largest entries of a row\<close>

lemma desc_key_Finite: "desc_key (Finite u) \<le> desc_key (Finite v) \<longleftrightarrow> v \<le> u"
  by (auto simp: desc_key_def)

lemma ranking_facts:
  assumes "valid_ranking order"
  shows "distinct (order xs)" and "set (order xs) = {..<length xs}"
    and "sorted (map (\<lambda>i. desc_key (xs ! i)) (order xs))"
    and "length (order xs) = length xs"
proof -
  show d: "distinct (order xs)" and s: "set (order xs) = {..<length xs}"
    and "sorted (map (\<lambda>i. desc_key (xs ! i)) (order xs))"
    using assms by (simp_all add: valid_ranking_def)
  have "card (set (order xs)) = length (order xs)" using d by (rule distinct_card)
  then show "length (order xs) = length xs" by (simp add: s)
qed

lemma topk_row_fst: "map fst (topk_row order xs k) = take k (order xs)"
  by (simp add: topk_row_def comp_def)

lemma topk_row_snd: "map snd (topk_row order xs k) = map (\<lambda>i. xs ! i) (take k (order xs))"
  by (simp add: topk_row_def comp_def)

lemma selection_facts:
  assumes "valid_ranking order" and "k \<le> length xs"
  shows "length (take k (order xs)) = k" and "distinct (take k (order xs))"
    and "\<forall>i \<in> set (take k (order xs)). i < length xs"
    and "\<forall>i \<in> set (take k (order xs)). \<forall>j < length xs. j \<notin> set (take k (order xs))
           \<longrightarrow> desc_key (xs ! i) \<le> desc_key (xs ! j)"
proof -
  note r = ranking_facts [OF assms(1), of xs]
  show "length (take k (order xs)) = k" using assms(2) r(4) by simp
  show "distinct (take k (order xs))" using r(1) by (rule distinct_take)
  show "\<forall>i \<in> set (take k (order xs)). i < length xs"
    using r(2) by (auto dest: in_set_takeD)
  show "\<forall>i \<in> set (take k (order xs)). \<forall>j < length xs. j \<notin> set (take k (order xs))
           \<longrightarrow> desc_key (xs ! i) \<le> desc_key (xs ! j)"
  proof (intro ballI allI impI)
    fix i j
    assume i: "i \<in> set (take k (order xs))" and j: "j < length xs"
      and nj: "j \<notin> set (take k (order xs))"
    from i obtain a where a: "a < k" "a < length (order xs)" "order xs ! a = i"
      by (auto simp: in_set_conv_nth)
    have "j \<in> set (order xs)" using j r(2) by simp
    then obtain b where b: "b < length (order xs)" "order xs ! b = j"
      by (auto simp: in_set_conv_nth)
    have "k \<le> b"
    proof (rule ccontr)
      assume "\<not> k \<le> b"
      then have "j \<in> set (take k (order xs))"
        using b by (auto simp: in_set_conv_nth intro!: exI [of _ b])
      then show False using nj by contradiction
    qed
    then have "a \<le> b" using a(1) by simp
    then have "map (\<lambda>i. desc_key (xs ! i)) (order xs) ! a \<le> map (\<lambda>i. desc_key (xs ! i)) (order xs) ! b"
      using r(3) b(1) by (intro sorted_nth_mono) simp_all
    then show "desc_key (xs ! i) \<le> desc_key (xs ! j)"
      using a b by simp
  qed
qed

lemma torch_topk_single:
  assumes "k \<le> length xs"
  shows "torch_topk order [xs] (int k)
           = Inr ([map (\<lambda>i. xs ! i) (take k (order xs))], [take k (order xs)])"
  using assms by (simp add: torch_topk_def topk_row_fst topk_row_snd)

lemma topk_single:
  assumes "k \<le> length xs"
  shows "topk order [xs] (int k)
           = Inr [index_put_cols (map (\<lambda>_. Finite 0) xs) (take k (order xs))
                    (softmax_f32 (map (\<lambda>i. xs ! i) (take k (order xs))))]"
  by (simp add: topk_def torch_topk_single [OF assms] bind_err_def Let_def)

lemma topk_single_Finite:
  assumes "valid_ranking order" and "k \<le> length l"
  shows "topk order [map Finite l] (int k)
           = Inr [map Finite (index_put_cols (map (\<lambda>_. 0) l) (take k (order (map Finite l)))
                    (softmax (map (\<lambda>i. l ! i) (take k (order (map Finite l))))))]"
proof -
  let ?sel = "take k (order (map Finite l))"
  have k: "k \<le> length (map Finite l)" using assms(2) by simp
  have b: "\<forall>i \<in> set ?sel. i < length l"
    using selection_facts(3) [OF assms(1) k] by simp
  have v: "map (\<lambda>i. map Finite l ! i) ?sel = map Finite (map (\<lambda>i. l ! i) ?sel)"
    using b by simp
  have z: "map (\<lambda>_. Finite 0) (map Finite l) = map Finite (map (\<lambda>_. 0) l)"
    by simp
  show ?thesis
    unfolding topk_single [OF k] v z softmax_f32_Finite index_put_cols_map ..
qed

subsection \<open>Top-k probabilities of a single row\<close>

lemma topk_single_row_facts:
  assumes "valid_ranking order" and "1 \<le> k" and "k \<le> length l"
  shows "\<exists>p. topk order [map Finite l] (int k) = Inr [map Finite p] \<and> length p = length l
           \<and> (let sel = map fst (topk_row order (map Finite l) k) in
                 length sel = k \<and> distinct sel \<and> (\<forall>i \<in> set sel. i < length l)
               \<and> (\<forall>i \<in> set sel. \<forall>j < length l. j \<notin> set sel \<longrightarrow> l ! j \<le> l ! i)
               \<and> (\<forall>j < length l. j \<notin> set sel \<longrightarrow> p ! j = 0)
               \<and> (\<forall>i \<in> set sel. 0 < p ! i)
               \<and> (\<Sum>i\<leftarrow>sel. p ! i) = 1
               \<and> sum_list p = 1)"
proof -
  define sel where "sel = take k (order (map Finite l))"
  define vals where "vals = softmax (map (\<lambda>i. l ! i) sel)"
  define p where "p = index_put_cols (map (\<lambda>_. 0) l) sel vals"
  have k: "k \<le> length (map Finite l)" using assms(3) by simp
  note s = selection_facts [OF assms(1) k, folded sel_def]
  have len_sel: "length sel = k" by (rule s(1))
  have len_vals: "length vals = length sel"
    by (simp add: vals_def softmax_length)
  have dist: "distinct sel" by (rule s(2))
  have bound: "\<forall>i \<in> set sel. i < length l" using s(3) by simp
  have bound0: "\<forall>i \<in> set sel. i < length (map (\<lambda>_. 0::real) l)"
    using bound by simp
  have nonempty: "map (\<lambda>i. l ! i) sel \<noteq> []"
    using assms(2) len_sel by auto
  have r: "topk order [map Finite l] (int k) = Inr [map Finite p]"
    unfolding p_def sel_def vals_def by (rule topk_single_Finite [OF assms(1,3)])
  have lp: "length p = length l"
    by (simp add: p_def index_put_cols_length)
  have dom: "\<forall>i \<in> set sel. \<forall>j < length l. j \<notin> set sel \<longrightarrow> l ! j \<le> l ! i"
  proof (intro ballI allI impI)
    fix i j assume i: "i \<in> set sel" and j: "j < length l" and nj: "j \<notin> set sel"
    then have "desc_key (map Finite l ! i) \<le> desc_key (map Finite l ! j)"
      using s(4) by simp
    then show "l ! j \<le> l ! i"
      using bound i j by (simp add: desc_key_Finite)
  qed
  have zero: "\<forall>j < length l. j \<notin> set sel \<longrightarrow> p ! j = 0"
    by (simp add: p_def index_put_cols_other)
  have hit: "map (\<lambda>i. p ! i) sel = vals"
  proof (rule nth_equalityI)
    show "length (map (\<lambda>i. p ! i) sel) = length vals" by (simp add: len_vals)
    fix a assume "a < length (map (\<lambda>i. p ! i) sel)"
    then have a: "a < length sel" by simp
    show "map (\<lambda>i. p ! i) sel ! a = vals ! a"
      using index_put_cols_hit [OF dist len_vals bound0 a] a by (simp add: p_def)
  qed
  have pos: "\<forall>i \<in> set sel. 0 < p ! i"
  proof
    fix i assume "i \<in> set sel"
    then have "p ! i \<in> set (map (\<lambda>i. p ! i) sel)" by simp
    then have "p ! i \<in> set vals" by (simp only: hit)
    then show "0 < p ! i"
      unfolding vals_def using softmax_pos [OF nonempty] by blast
  qed
  have s1: "(\<Sum>i\<leftarrow>sel. p ! i) = 1"
    unfolding hit vals_def by (rule softmax_sum [OF nonempty])
  have "sum_list p = sum_list (map (\<lambda>_. 0::real) l) - (\<Sum>i\<leftarrow>sel. map (\<lambda>_. 0::real) l ! i)
                       + sum_list vals"
    unfolding p_def by (rule index_put_cols_sum [OF dist len_vals bound0])
  moreover have "(\<Sum>i\<leftarrow>sel. map (\<lambda>_. 0::real) l ! i) = 0"
  proof -
    have "\<forall>x \<in> set (map (\<lambda>i. map (\<lambda>_. 0::real) l ! i) sel). x = 0"
      using bound by auto
    then show ?thesis by (rule sum_list_all_zero)
  qed
  moreover have "sum_list (map (\<lambda>_. 0::real) l) = 0" by simp
  moreover have "sum_list vals = 1"
    unfolding vals_def by (rule softmax_sum [OF nonempty])
  ultimately have s2: "sum_list p = 1" by simp
  have sel': "map fst (topk_row order (map Finite l) k) = sel"
    by (simp add: topk_row_fst sel_def)
  show ?thesis
    unfolding sel' Let_def
    using r lp len_sel dist bound dom zero pos s1 s2 by (intro exI [of _ p] conjI)
qed

subsection \<open>Rankings\<close>

lemma valid_ranking_from:
  assumes "\<And>n. distinct (idxs n) \<and> set (idxs n) = {..<n}"
  shows "valid_ranking (ranking_from idxs)"
  using assms by (simp add: valid_ranking_def ranking_from_def)

lemma valid_lower_first: "valid_ranking lower_first"
  unfolding lower_first_def by (rule valid_ranking_from) (simp add: atLeast0LessThan)

lemma valid_middle_first: "valid_ranking middle_first"
  unfolding middle_first_def by (rule valid_ranking_from) (simp add: atLeast0LessThan)

subsection \<open>First maximum\<close>

lemma argmax_row_first_max:
  assumes "xs \<noteq> []"
  shows "argmax_row xs < length xs \<and> xs ! argmax_row xs = Max (set xs)
           \<and> (\<forall>j < argmax_row xs. xs ! j \<noteq> Max (set xs))"
proof -
  let ?P = "\<lambda>x. x \<noteq> Max (set xs)"
  let ?a = "length (takeWhile ?P xs)"
  have "Max (set xs) \<in> set xs" using assms by (intro Max_in) simp_all
  then have "takeWhile ?P xs \<noteq> xs"
    by (metis (mono_tags, lifting) takeWhile_eq_all_conv)
  then have lt: "?a < length xs"
    by (metis length_takeWhile_le le_neq_implies_less takeWhile_eq_take take_all_iff order_refl)
  have hit: "xs ! ?a = Max (set xs)"
    using nth_length_takeWhile [OF lt] by simp
  have "\<forall>j < ?a. xs ! j \<noteq> Max (set xs)"
  proof (intro allI impI)
    fix j assume j: "j < ?a"
    then have "takeWhile ?P xs ! j \<in> set (takeWhile ?P xs)" by (rule nth_mem)
    then have "?P (takeWhile ?P xs ! j)" by (rule set_takeWhileD [THEN conjunct2])
    then show "xs ! j \<noteq> Max (set xs)" using j by (simp add: takeWhile_nth)
  qed
  then show ?thesis using lt hit by (simp add: argmax_row_def)
qed

lemma next_greedy_single:
  "l \<noteq> [] \<Longrightarrow> next_greedy [l] = Inr [[argmax_row l]]"
  by (simp add: next_greedy_def torch_argmax_def)

lemma top_one:
  assumes "valid_ranking order" and "l \<noteq> []"
  shows "\<exists>i < length l. take 1 (order (map Finite l)) = [i] \<and> (\<forall>j < length l. l ! j \<le> l ! i)"
proof -
  let ?sel = "take 1 (order (map Finite l))"
  have k: "1 \<le> length (map Finite l)" using assms(2) by (cases l) simp_all
  note s = selection_facts [OF assms(1) k]
  from s(1) have "\<exists>i. ?sel = [i]"
    by (simp only: length_Suc_conv One_nat_def length_0_conv) blast
  then obtain i where sel: "?sel = [i]" ..
  have i: "i < length l" using s(3) sel by simp
  have "\<forall>j < length l. l ! j \<le> l ! i"
  proof (intro allI impI)
    fix j assume j: "j < length l"
    show "l ! j \<le> l ! i"
    proof (cases "j = i")
      case True
      then show ?thesis by simp
    next
      case False
      then have "desc_key (map Finite l ! i) \<le> desc_key (map Finite l ! j)"
        using s(4) sel j by simp
      then show ?thesis using i j by (simp add: desc_key_Finite)
    qed
  qed
  then show ?thesis using i sel by blast
qed

subsection \<open>Drawing from the top-k probabilities\<close>

lemma valid_draw_first: "valid_draw draw_first"
  unfolding valid_draw_def
proof (intro allI impI)
  fix ps :: vec
  assume h: "(\<forall>p \<in> set ps. 0 \<le> p) \<and> 0 < sum_list ps"
  let ?P = "\<lambda>p. p \<le> (0::real)"
  have "\<not> (\<forall>p \<in> set ps. ?P p)"
  proof
    assume "\<forall>p \<in> set ps. ?P p"
    then have "\<forall>p \<in> set ps. p = 0" using h by force
    then have "sum_list ps = 0" by (rule sum_list_all_zero)
    then show False using h by simp
  qed
  then have "takeWhile ?P ps \<noteq> ps"
    by (simp add: takeWhile_eq_all_conv)
  then have lt: "length (takeWhile ?P ps) < length ps"
    by (metis length_takeWhile_le le_neq_implies_less takeWhile_eq_take take_all_iff order_refl)
  from nth_length_takeWhile [OF lt] have "0 < ps ! length (takeWhile ?P ps)" by simp
  then show "draw_first ps < length ps \<and> 0 < ps ! draw_first ps"
    using lt by (simp add: draw_first_def)
qed

lemma multinomial_single_row:
  assumes "valid_draw draw" "sum_list p = 1"
    and "\<forall>j < length p. j \<notin> set sel \<longrightarrow> p ! j = 0"
    and "\<forall>i \<in> set sel. 0 < p ! i"
  shows "torch_multinomial draw [map Finite p] = Inr [[draw p]] \<and> draw p \<in> set sel
           \<and> draw p < length p"
proof -
  have nn: "\<forall>x \<in> set p. 0 \<le> x"
  proof
    fix x assume "x \<in> set p"
    then obtain j where j: "j < length p" "p ! j = x" by (auto simp: in_set_conv_nth)
    show "0 \<le> x"
    proof (cases "j \<in> set sel")
      case True
      then show ?thesis using assms(4) j by force
    next
      case False
      then show ?thesis using assms(3) j by force
    qed
  qed
  then have "\<not> (\<exists>x \<in> set p. x < 0)" by force
  then have m: "torch_multinomial draw [map Finite p] = Inr [[draw p]]"
    using assms(2) by (simp add: torch_multinomial_def multinomial_row_Finite)
  have d: "draw p < length p" "0 < p ! draw p"
    using assms(1,2) nn unfolding valid_draw_def by force+
  then have "draw p \<in> set sel" using assms(3) by force
  then show ?thesis using m d by simp
qed

lemma div_temp_single:
  assumes "finite_quotients temp l"
  shows "div_temp [l] temp = [map Finite (map (\<lambda>v. v / temp) l)]"
  using finite_quotients_div(1) [OF assms] by (simp add: div_temp_def)

lemma next_topk_ok:
  assumes "valid_ranking order" and "valid_draw draw" and "finite_quotients temp l"
    and "1 \<le> k" and "k \<le> int (length l)"
  shows "\<exists>i < length l. next_topk order draw k temp [l] = Inr [[i]]
           \<and> i \<in> set (map fst (topk_row order (map Finite (map (\<lambda>v. v / temp) l)) (nat k)))"
proof -
  define l' where "l' = map (\<lambda>v. v / temp) l"
  define n where "n = nat k"
  have n: "1 \<le> n" "n \<le> length l'" "int n = k"
    using assms(4,5) by (simp_all add: n_def l'_def)
  from topk_single_row_facts [OF assms(1) n(1,2)] obtain p where
    t: "topk order [map Finite l'] (int n) = Inr [map Finite p]" and lp: "length p = length l'"
    and z: "\<forall>j < length l'. j \<notin> set (map fst (topk_row order (map Finite l') n)) \<longrightarrow> p ! j = 0"
    and pos: "\<forall>j \<in> set (map fst (topk_row order (map Finite l') n)). 0 < p ! j"
    and s: "sum_list p = 1"
    unfolding Let_def by blast
  have z': "\<forall>j < length p. j \<notin> set (map fst (topk_row order (map Finite l') n)) \<longrightarrow> p ! j = 0"
    using z lp by simp
  from multinomial_single_row [OF assms(2) s z' pos]
  have "torch_multinomial draw [map Finite p] = Inr [[draw p]]" and "draw p < length l"
    and "draw p \<in> set (map fst (topk_row order (map Finite l') n))"
    by (simp_all add: lp l'_def)
  then show ?thesis
    using t n(3)
    by (simp add: next_topk_def div_temp_single [OF assms(3)] l'_def [symmetric] bind_err_def
        n_def [symmetric])
qed


lemma next_temperature_ok:
  assumes "valid_draw draw" and "l \<noteq> []" and "finite_quotients temp l"
  shows "\<exists>i < length l. next_temperature draw temp [l] = Inr [[i]]"
proof -
  define l' where "l' = map (\<lambda>v. v / temp) l"
  have ne: "l' \<noteq> []" using assms(2) by (simp add: l'_def)
  have a: "sum_list (softmax l') = 1" by (rule softmax_sum [OF ne])
  have b: "\<forall>i \<in> set [0..<length l]. 0 < softmax l' ! i"
    using softmax_pos [OF ne] by (simp add: softmax_length l'_def)
  have c: "\<forall>j < length (softmax l'). j \<notin> set [0..<length l] \<longrightarrow> softmax l' ! j = 0"
    by (simp add: softmax_length l'_def)
  from multinomial_single_row [OF assms(1) a c b]
  have "torch_multinomial draw [map Finite (softmax l')] = Inr [[draw (softmax l')]]"
    and "draw (softmax l') < length l"
    by (simp_all add: softmax_length l'_def)
  then show ?thesis
    by (simp add: next_temperature_def div_temp_single [OF assms(3)] l'_def [symmetric]
        softmax_f32_Finite)
qed

subsection \<open>A temperature of zero\<close>

lemma torch_multinomial_NaN:
  assumes "NaN \<in> set p"
  shows "torch_multinomial draw [p] = Inl InvalidDistribution"
  by (simp add: torch_multinomial_def multinomial_row_NaN [OF assms])

lemma torch_multinomial_zeros:
  "torch_multinomial draw [map (\<lambda>_. Finite 0) xs] = Inl InvalidDistribution"
proof -
  have "map (\<lambda>_. Finite 0) xs = map Finite (map (\<lambda>_. 0) xs)" by simp
  then have "multinomial_row draw (map (\<lambda>_. Finite 0) xs) = Inl InvalidDistribution"
    by (simp only: multinomial_row_Finite) simp
  then show ?thesis by (simp add: torch_multinomial_def)
qed

lemma next_temperature_zero:
  "next_temperature draw 0 [l] = Inl InvalidDistribution"
proof (cases "l = []")
  case True
  then show ?thesis
    by (simp add: next_temperature_def div_temp_def softmax_f32_def finite_part_def
        torch_multinomial_def multinomial_row_def)
next
  case False
  let ?q = "map (\<lambda>v. f32_div v 0) l"
  have "\<forall>x \<in> set ?q. \<not> is_finite x" by (simp add: f32_div_zero)
  then have "softmax_f32 ?q = map (\<lambda>_. NaN) ?q" by (rule softmax_f32_none_finite)
  moreover have "NaN \<in> set (map (\<lambda>_. NaN) ?q)" using False by (cases l) simp_all
  ultimately show ?thesis
    by (simp add: next_temperature_def div_temp_def torch_multinomial_NaN)
qed

lemma next_topk_no_index:
  assumes "k < 1 \<or> int (length l) < k"
  shows "\<exists>e. next_topk order draw k temp [l] = Inl e"
proof (cases "k = 0")
  case True
  have "topk order [map (\<lambda>v. f32_div v temp) l] 0 = Inr [map (\<lambda>_. Finite 0) (map (\<lambda>v. f32_div v temp) l)]"
    using topk_single [of 0 "map (\<lambda>v. f32_div v temp) l" order]
    by (simp add: index_put_cols_Nil)
  then show ?thesis
    using True torch_multinomial_zeros [of draw "map (\<lambda>v. f32_div v temp) l"]
    by (simp add: next_topk_def div_temp_def bind_err_def)
next
  case False
  then have "k < 0 \<or> int (length l) < k" using assms by linarith
  then show ?thesis
    by (auto simp: next_topk_def div_temp_def topk_def torch_topk_def bind_err_def)
qed

lemma next_topk_zero_temp:
  assumes "valid_ranking order"
  shows "\<exists>e. next_topk order draw k 0 [l] = Inl e"
proof (cases "k < 1 \<or> int (length l) < k")
  case True
  then show ?thesis by (rule next_topk_no_index)
next
  case False
  define q where "q = map (\<lambda>v. f32_div v 0) l"
  define n where "n = nat k"
  have k: "1 \<le> k" "k \<le> int (length l)" using False by simp_all
  have n: "1 \<le> n" "n \<le> length q" "int n = k"
    using k by (simp_all add: n_def q_def)
  define sel where "sel = take n (order q)"
  note s = selection_facts [OF assms n(2), folded sel_def]
  have nf: "\<forall>x \<in> set (map (\<lambda>i. q ! i) sel). \<not> is_finite x"
    using s(3) by (simp add: q_def f32_div_zero)
  have sm: "softmax_f32 (map (\<lambda>i. q ! i) sel) = map (\<lambda>_. NaN) sel"
    using softmax_f32_none_finite [OF nf] by simp
  define p where "p = index_put_cols (map (\<lambda>_. Finite 0) q) sel (map (\<lambda>_. NaN) sel)"
  have t: "topk order [q] (int n) = Inr [p]"
    unfolding p_def sel_def by (simp add: topk_single [OF n(2)] sm [unfolded sel_def])
  have 0: "0 < length sel" using s(1) n(1) by simp
  have b: "\<forall>i \<in> set sel. i < length (map (\<lambda>_. Finite 0) q)" using s(3) by simp
  have "p ! (sel ! 0) = map (\<lambda>_. NaN) sel ! 0"
    unfolding p_def by (rule index_put_cols_hit [OF s(2) _ b 0]) simp
  then have "p ! (sel ! 0) = NaN" using 0 by simp
  moreover have "sel ! 0 < length p"
    using b 0 by (simp add: p_def index_put_cols_length)
  ultimately have "NaN \<in> set p" by (metis nth_mem)
  then have "torch_multinomial draw [p] = Inl InvalidDistribution"
    by (rule torch_multinomial_NaN)
  then show ?thesis
    using t n(3) by (simp add: next_topk_def div_temp_def q_def [symmetric] bind_err_def)
qed

text \<open>
  Claim C5. For one logits vector \<open>l\<close> and \<open>1 \<le> k \<le> vocab_size\<close>, \<open>topk\<close> returns one
  row \<open>p\<close> of probabilities over the vocabulary, whatever the order in which
  \<open>torch.topk\<close> ranks equal values. The \<open>k\<close> selected indices are distinct and hold \<open>k\<close>
  largest logits: every index left out has a logit no larger than every selected
  one. Every index left out has probability exactly \<open>0\<close>, every selected index a
  positive one, and the probabilities of the selected indices sum to \<open>1\<close>, as does the
  whole row.
\<close>

theorem topk_single_row_distribution:
  assumes "valid_ranking order" and "1 \<le> k" and "k \<le> length l"
  shows "\<exists>p. topk order [map Finite l] (int k) = Inr [map Finite p] \<and> length p = length l
           \<and> (let sel = map fst (topk_row order (map Finite l) k) in
                 length sel = k \<and> distinct sel \<and> (\<forall>i \<in> set sel. i < length l)
               \<and> (\<forall>i \<in> set sel. \<forall>j < length l. j \<notin> set sel \<longrightarrow> l ! j \<le> l ! i)
               \<and> (\<forall>j < length l. j \<notin> set sel \<longrightarrow> p ! j = 0)
               \<and> (\<forall>i \<in> set sel. 0 < p ! i)
               \<and> (\<Sum>i\<leftarrow>sel. p ! i) = 1
               \<and> sum_list p = 1)"
  using assms by (rule topk_single_row_facts)

theorem topk_single_row_distribution_witness:
  "valid_ranking lower_first \<and> (1::nat) \<le> 2 \<and> 2 \<le> length [1, 3, 2 :: real]
   \<and> map fst (topk_row lower_first (map Finite [1, 3, 2]) 2) = [1, 2]
   \<and> (\<exists>p. topk lower_first [map Finite [1, 3, 2]] 2 = Inr [map Finite p] \<and> length p = 3
          \<and> p ! 0 = 0 \<and> 0 < p ! 1 \<and> 0 < p ! 2 \<and> p ! 1 + p ! 2 = 1 \<and> sum_list p = 1)"
proof -
  have sel: "map fst (topk_row lower_first (map Finite [1, 3, 2]) 2) = [1, 2]"
    by (simp add: topk_row_fst lower_first_def ranking_from_def desc_key_def eval_nat_numeral)
  have "(1::nat) \<le> 2" and "2 \<le> length [1, 3, 2 :: real]" by simp_all
  from topk_single_row_distribution [OF valid_lower_first this] obtain p where
    "topk lower_first [map Finite [1, 3, 2]] (int 2) = Inr [map Finite p]"
    "length p = length [1, 3, 2 :: real]"
    "\<forall>j < length [1, 3, 2 :: real]. j \<notin> set [1, 2 :: nat] \<longrightarrow> p ! j = 0"
    "\<forall>i \<in> set [1, 2 :: nat]. 0 < p ! i"
    "(\<Sum>i\<leftarrow>[1, 2 :: nat]. p ! i) = 1" "sum_list p = 1"
    unfolding Let_def sel by blast
  then have "topk lower_first [map Finite [1, 3, 2]] 2 = Inr [map Finite p] \<and> length p = 3
          \<and> p ! 0 = 0 \<and> 0 < p ! 1 \<and> 0 < p ! 2 \<and> p ! 1 + p ! 2 = 1 \<and> sum_list p = 1"
    by simp
  then show ?thesis using sel valid_lower_first by auto
qed

lemma top_one_unique:
  assumes "valid_ranking order" and "m < length l"
    and "\<forall>j < length l. j \<noteq> m \<longrightarrow> l ! j < l ! m"
  shows "take 1 (order (map Finite l)) = [m]"
proof -
  have "l \<noteq> []" using assms(2) by auto
  from top_one [OF assms(1) this] obtain i where
    i: "i < length l" "take 1 (order (map Finite l)) = [i]" "\<forall>j < length l. l ! j \<le> l ! i"
    by blast
  have "i = m"
  proof (rule ccontr)
    assume "i \<noteq> m"
    then have "l ! i < l ! m" using assms(3) i(1) by simp
    moreover have "l ! m \<le> l ! i" using i(3) assms(2) by simp
    ultimately show False by simp
  qed
  then show ?thesis using i(2) by simp
qed

lemma top_one_10_first:
  assumes "valid_ranking order"
  shows "take 1 (order (map Finite [10, 0, 0])) = [0]"
  by (rule top_one_unique [OF assms]) (auto simp: nth_Cons' less_Suc_eq eval_nat_numeral)

lemma top_one_10_second:
  assumes "valid_ranking order"
  shows "take 1 (order (map Finite [0, 10, 0])) = [1]"
  by (rule top_one_unique [OF assms]) (auto simp: nth_Cons' less_Suc_eq eval_nat_numeral)

text \<open>
  Claim C10. There is a logits matrix with two rows for which \<open>topk\<close>, with a \<open>k\<close> in
  range, gives a row a non-zero probability at an index that is not among the \<open>k\<close>
  largest logits of that row, whatever the order in which \<open>torch.topk\<close> ranks equal
  values: with the rows \<open>[10, 0, 0]\<close> and \<open>[0, 10, 0]\<close> and \<open>k = 1\<close>, both result rows
  are \<open>[1, 1, 0]\<close>, so row \<open>0\<close> gives probability \<open>1\<close> to index \<open>1\<close>, the top index of
  row \<open>1\<close>.
\<close>

theorem topk_mixes_rows:
  assumes "valid_ranking order"
  shows "\<exists>logits k probs r i.
      2 \<le> length logits \<and> 1 \<le> k \<and> k \<le> int (length (logits ! r))
    \<and> topk order (map (map Finite) logits) k = Inr (map (map Finite) probs)
    \<and> r < length logits \<and> i < length (logits ! r)
    \<and> i \<notin> set (map fst (topk_row order (map Finite (logits ! r)) (nat k)))
    \<and> probs ! r ! i \<noteq> 0"
proof -
  note a = top_one_10_first [OF assms] top_one_10_second [OF assms]
  have t: "topk order (map (map Finite) [[10, 0, 0], [0, 10, 0]]) 1
             = Inr (map (map Finite) [[1, 1, 0], [1, 1, 0]])"
    using a
    by (simp add: topk_def torch_topk_def topk_row_def bind_err_def index_put_cols_def
        softmax_f32_def finite_part_def)
  have s: "map fst (topk_row order (map Finite [10, 0, 0]) 1) = [0]"
    using a by (simp add: topk_row_fst)
  show ?thesis
    apply (rule exI [of _ "[[10, 0, 0], [0, 10, 0]]"])
    apply (rule exI [of _ 1])
    apply (rule exI [of _ "[[1, 1, 0], [1, 1, 0]]"])
    apply (rule exI [of _ 0])
    apply (rule exI [of _ 1])
    using t s by simp
qed

theorem topk_mixes_rows_witness:
  "valid_ranking lower_first
   \<and> topk lower_first [[Finite 10, Finite 0, Finite 0], [Finite 0, Finite 10, Finite 0]] 1
       = Inr [[Finite 1, Finite 1, Finite 0], [Finite 1, Finite 1, Finite 0]]
   \<and> (\<exists>logits k probs r i.
        2 \<le> length logits \<and> 1 \<le> k \<and> k \<le> int (length (logits ! r))
      \<and> topk lower_first (map (map Finite) logits) k = Inr (map (map Finite) probs)
      \<and> r < length logits \<and> i < length (logits ! r)
      \<and> i \<notin> set (map fst (topk_row lower_first (map Finite (logits ! r)) (nat k)))
      \<and> probs ! r ! i \<noteq> 0)"
proof -
  have "topk lower_first [[Finite 10, Finite 0, Finite 0], [Finite 0, Finite 10, Finite 0]] 1
       = Inr [[Finite 1, Finite 1, Finite 0], [Finite 1, Finite 1, Finite 0]]"
    by (simp add: topk_def torch_topk_def topk_row_def bind_err_def index_put_cols_def
        softmax_f32_def finite_part_def lower_first_def ranking_from_def desc_key_def
        eval_nat_numeral)
  then show ?thesis
    using topk_mixes_rows [OF valid_lower_first] valid_lower_first by (intro conjI)
qed





subsection \<open>Which parameters a sampling call rejects\<close>

text \<open>
  Claim C8, as the code has it. Nothing validates the sampling parameters; a call
  fails only where the library rejects what it is given. For a non-empty logits
  vector and a draw that respects the probabilities: the temperature strategy fails
  when \<open>temp = 0\<close>, and returns a token for every temperature, a negative one
  included, that keeps the quotients finite; the top-k strategy fails when \<open>k < 1\<close> or
  \<open>k > vocab_size\<close> or \<open>temp = 0\<close>, and returns a token when \<open>1 \<le> k \<le> vocab_size\<close> and
  the temperature keeps the quotients finite.
\<close>

theorem sampling_parameter_failures:
  assumes "valid_ranking order" and "valid_draw draw" and "l \<noteq> []"
  shows "(temp = 0 \<longrightarrow> next_temperature draw temp [l] = Inl InvalidDistribution)
       \<and> (finite_quotients temp l
            \<longrightarrow> (\<exists>i < length l. next_temperature draw temp [l] = Inr [[i]]))
       \<and> (k < 1 \<or> int (length l) < k \<or> temp = 0
            \<longrightarrow> (\<exists>e. next_topk order draw k temp [l] = Inl e))
       \<and> (1 \<le> k \<and> k \<le> int (length l) \<and> finite_quotients temp l
            \<longrightarrow> (\<exists>i < length l. next_topk order draw k temp [l] = Inr [[i]]))"
proof (intro conjI impI)
  assume "temp = 0"
  then show "next_temperature draw temp [l] = Inl InvalidDistribution"
    by (simp add: next_temperature_zero)
next
  assume "finite_quotients temp l"
  then show "\<exists>i < length l. next_temperature draw temp [l] = Inr [[i]]"
    by (rule next_temperature_ok [OF assms(2,3)])
next
  assume "k < 1 \<or> int (length l) < k \<or> temp = 0"
  then consider "k < 1 \<or> int (length l) < k" | "temp = 0" by blast
  then show "\<exists>e. next_topk order draw k temp [l] = Inl e"
  proof cases
    case 1
    then show ?thesis by (rule next_topk_no_index)
  next
    case 2
    then show ?thesis using next_topk_zero_temp [OF assms(1), of draw k l] by simp
  qed
next
  assume "1 \<le> k \<and> k \<le> int (length l) \<and> finite_quotients temp l"
  then show "\<exists>i < length l. next_topk order draw k temp [l] = Inr [[i]]"
    using next_topk_ok [OF assms(1,2), of temp l k] by blast
qed

theorem sampling_parameter_failures_witness:
  "valid_ranking lower_first \<and> valid_draw draw_first \<and> [0, 1 :: real] \<noteq> []
   \<and> finite_quotients (1 / 2) [0, 1] \<and> finite_quotients 1 [0, 1]
   \<and> next_temperature draw_first 0 [[0, 1]] = Inl InvalidDistribution
   \<and> (\<exists>i < 2. next_temperature draw_first (1 / 2) [[0, 1]] = Inr [[i]])
   \<and> (\<exists>e. next_topk lower_first draw_first 3 1 [[0, 1]] = Inl e)
   \<and> (\<exists>e. next_topk lower_first draw_first 0 1 [[0, 1]] = Inl e)
   \<and> (\<exists>e. next_topk lower_first draw_first 1 0 [[0, 1]] = Inl e)
   \<and> (\<exists>i < 2. next_topk lower_first draw_first 2 1 [[0, 1]] = Inr [[i]])"
proof -
  have ne: "[0, 1 :: real] \<noteq> []" by simp
  have f: "finite_quotients (1 / 2) [0, 1]" "finite_quotients 1 [0, 1]"
    by (simp_all add: finite_quotients_def f32_div_def f32_of_def overflow_at_def)
  note w = sampling_parameter_failures [OF valid_lower_first valid_draw_first ne]
  have a: "next_temperature draw_first 0 [[0, 1]] = Inl InvalidDistribution"
    using w [of 0 1] by simp
  have b: "\<exists>i < 2. next_temperature draw_first (1 / 2) [[0, 1]] = Inr [[i]]"
    using w [of "1 / 2" 1] f by (simp add: numeral_2_eq_2)
  have c: "\<exists>e. next_topk lower_first draw_first 3 1 [[0, 1]] = Inl e"
    using w [of 1 3] by simp
  have d: "\<exists>e. next_topk lower_first draw_first 0 1 [[0, 1]] = Inl e"
    using w [of 1 0] by simp
  have e: "\<exists>e. next_topk lower_first draw_first 1 0 [[0, 1]] = Inl e"
    using w [of 0 1] by simp
  have g: "\<exists>i < 2. next_topk lower_first draw_first 2 1 [[0, 1]] = Inr [[i]]"
    using w [of 1 2] f by (simp add: numeral_2_eq_2)
  show ?thesis using valid_lower_first valid_draw_first ne f a b c d e g by (intro conjI)
qed

text \<open>
  The temperature strategy with the negative temperature \<open>-1\<close> on the logits
  \<open>[0, 1]\<close> returns token \<open>0\<close>: a temperature \<open>\<le> 0\<close> does not make the call fail.
\<close>

theorem negative_temperature_counterexample:
  "next_temperature draw_first (- 1) [[0, 1]] = Inr [[0]]"
proof -
  have p: "0 < exp (0::real) / (exp 0 + exp (- 1))"
    by (intro divide_pos_pos add_pos_pos) simp_all
  have q: "0 < exp (- 1 :: real) / (exp 0 + exp (- 1))"
    by (intro divide_pos_pos add_pos_pos) simp_all
  have dv: "div_temp [[0, 1]] (- 1) = [[Finite 0, Finite (- 1)]]"
    by (simp add: div_temp_def f32_div_def f32_of_def overflow_at_def)
  have s: "softmax [0, - 1] = [exp 0 / (exp 0 + exp (- 1)), exp (- 1) / (exp 0 + exp (- 1))]"
    by (simp add: softmax_def)
  have neg: "\<not> (\<exists>x \<in> set (softmax [0, - 1]). x < 0)"
    unfolding s using p q by (auto simp: not_less intro: less_imp_le)
  have sum: "\<not> sum_list (softmax [0, - 1]) \<le> 0"
    using softmax_sum [of "[0, - 1]"] by simp
  have d: "draw_first (softmax [0, - 1]) = 0"
    unfolding s draw_first_def using p by (simp add: not_le)
  have sm: "softmax_f32 [Finite 0, Finite (- 1)] = map Finite (softmax [0, - 1])"
    using softmax_f32_Finite [of "[0, - 1]"] by simp
  have "multinomial_row draw_first (map Finite (softmax [0, - 1])) = Inr [0]"
    unfolding multinomial_row_Finite using neg sum d by simp
  then show ?thesis
    by (simp add: next_temperature_def dv sm torch_multinomial_def)
qed

text \<open>
  A temperature that is not zero but so small that a quotient overflows makes the
  call fail as well: \<open>1 / 10\<^sup>-\<^sup>3\<^sup>9\<close> rounds to \<open>+inf\<close>, the softmax of the row is \<open>nan\<close>, and
  \<open>torch.multinomial\<close> rejects it.
\<close>

lemma tiny_temperature_fails:
  "next_temperature draw_first (1 / 10 ^ 39) [[0, 1]] = Inl InvalidDistribution"
proof -
  have "f32_div 1 (1 / 10 ^ 39) = PosInf"
    by (simp add: f32_div_def f32_of_def overflow_at_def)
  then have "div_temp [[0, 1]] (1 / 10 ^ 39) = [[Finite 0, PosInf]]"
    by (simp add: div_temp_def f32_div_def f32_of_def overflow_at_def)
  then show ?thesis
    by (simp add: next_temperature_def softmax_f32_def torch_multinomial_def
        multinomial_row_def)
qed

section \<open>Properties of the model\<close>

subsection \<open>Embedding lookups\<close>

lemma embedding_ok:
  assumes "list_all (\<lambda>i. i < length table) idxs"
  shows "embedding table idxs = Inr (map (\<lambda>i. table ! i) idxs)"
proof -
  have h: "map (\<lambda>i. if i < length table then Inr (table ! i) else Inl IndexError) idxs
          = map (\<lambda>i. Inr (table ! i)) idxs"
    using assms by (intro map_cong) (auto simp: list_all_iff)
  show ?thesis
    unfolding embedding_def h by (rule sequence_err_map_Inr)
qed

lemma embedding_fail:
  assumes "\<not> list_all (\<lambda>i. i < length table) idxs"
  shows "embedding table idxs = Inl IndexError"
  unfolding embedding_def
proof (rule sequence_err_fail)
  show "\<forall>r \<in> set (map (\<lambda>i. if i < length table then Inr (table ! i) else Inl IndexError) idxs).
          r = Inl IndexError \<or> (\<exists>v. r = Inr v)"
    by auto
  from assms obtain i where "i \<in> set idxs" "\<not> i < length table"
    by (auto simp: list_all_iff)
  then show "Inl IndexError
               \<in> set (map (\<lambda>i. if i < length table then Inr (table ! i) else Inl IndexError) idxs)"
    by force
qed

lemma pos_embedding_lookup:
  "embedding table [0..<T]
     = (if T \<le> length table then Inr (take T table) else Inl IndexError)"
proof (cases "T \<le> length table")
  case True
  then have "list_all (\<lambda>i. i < length table) [0..<T]" by (simp add: list_all_iff)
  moreover have "map (\<lambda>i. table ! i) [0..<T] = take T table"
    using True by (intro nth_equalityI) simp_all
  ultimately show ?thesis using True by (simp add: embedding_ok)
next
  case False
  then have "\<not> list_all (\<lambda>i. i < length table) [0..<T]"
    by (auto simp: list_all_iff intro!: bexI [of _ "length table"])
  then show ?thesis using False by (simp add: embedding_fail)
qed

subsection \<open>The causal mask\<close>

lemma triu_mask_slice:
  assumes "s \<le> n"
  shows "map (take s) (take s (triu_mask n)) = triu_mask s"
proof -
  have "take s (triu_mask n) = map (\<lambda>i. map (\<lambda>j. i < j) [0..<n]) [0..<s]"
    using assms by (simp add: triu_mask_def take_map min_def)
  moreover have "\<And>i. take s (map (\<lambda>j. i < j) [0..<n]) = map (\<lambda>j. i < j) [0..<s]"
    using assms by (simp add: take_map min_def)
  ultimately show ?thesis by (simp add: triu_mask_def comp_def)
qed

lemma triu_mask_shape: "length (triu_mask s) = s" "\<forall>r \<in> set (triu_mask s). length r = s"
  by (auto simp: triu_mask_def)

lemma triu_mask_nth: "i < s \<Longrightarrow> triu_mask s ! i = map (\<lambda>j. i < j) [0..<s]"
  by (simp add: triu_mask_def)

lemma mask_slice_causal:
  assumes "mask self = triu_mask (att_context self)" and "length x \<le> att_context self"
  shows "mask_slice self (min (length x) (att_context self)) = triu_mask (length x)"
  using assms by (simp add: mask_slice_def triu_mask_slice min_def)

subsection \<open>Attention weights under the causal mask\<close>

lemma masked_softmax_causal:
  assumes "length sc = s" and "i < s"
  shows "length (masked_softmax (map (\<lambda>j. i < j) [0..<s]) sc) = s"
    and "\<forall>j < s. i < j \<longrightarrow> masked_softmax (map (\<lambda>j. i < j) [0..<s]) sc ! j = 0"
    and "\<forall>j \<le> i. 0 < masked_softmax (map (\<lambda>j. i < j) [0..<s]) sc ! j"
    and "sum_list (masked_softmax (map (\<lambda>j. i < j) [0..<s]) sc) = 1"
proof -
  define e where "e = map2 (\<lambda>b v. if b then 0 else exp v) (map (\<lambda>j. i < j) [0..<s]) sc"
  have len: "length e = s" using assms(1) by (simp add: e_def)
  have nth: "\<And>j. j < s \<Longrightarrow> e ! j = (if i < j then 0 else exp (sc ! j))"
    using assms(1) by (simp add: e_def)
  have nonneg: "\<forall>v \<in> set e. 0 \<le> v"
    using nth len by (auto simp: in_set_conv_nth)
  have "e ! i \<le> sum_list e"
    using nonneg assms(2) len by (intro member_le_sum_list) auto
  moreover have "0 < e ! i" using nth [OF assms(2)] by simp
  ultimately have Z: "0 < sum_list e" by linarith
  have ms: "masked_softmax (map (\<lambda>j. i < j) [0..<s]) sc = map (\<lambda>v. v / sum_list e) e"
    by (simp add: masked_softmax_def e_def Let_def)
  show "length (masked_softmax (map (\<lambda>j. i < j) [0..<s]) sc) = s"
    by (simp add: ms len)
  show "\<forall>j < s. i < j \<longrightarrow> masked_softmax (map (\<lambda>j. i < j) [0..<s]) sc ! j = 0"
    by (simp add: ms len nth)
  show "\<forall>j \<le> i. 0 < masked_softmax (map (\<lambda>j. i < j) [0..<s]) sc ! j"
    using assms(2) Z by (simp add: ms len nth)
  have "sum_list (map (\<lambda>v. v / sum_list e) e) = sum_list (map (\<lambda>v. v) e) / sum_list e"
    by (rule sum_list_map_divide)
  then show "sum_list (masked_softmax (map (\<lambda>j. i < j) [0..<s]) sc) = 1"
    using Z by (simp add: ms)
qed

lemma attention_weights_causal:
  assumes "i < length x"
  shows "length (attention_weights m (triu_mask (length x)) x h) = length x"
    and "length (attention_weights m (triu_mask (length x)) x h ! i) = length x"
    and "\<forall>j < length x. i < j \<longrightarrow> attention_weights m (triu_mask (length x)) x h ! i ! j = 0"
    and "\<forall>j \<le> i. 0 < attention_weights m (triu_mask (length x)) x h ! i ! j"
    and "sum_list (attention_weights m (triu_mask (length x)) x h ! i) = 1"
proof -
  define d where "d = embed_dim m div num_heads m"
  define q where "q = map (\<lambda>v. head_slice d h (linear (q_proj m) v)) x"
  define k where "k = map (\<lambda>v. head_slice d h (linear (k_proj m) v)) x"
  define scores where "scores = map (\<lambda>qi. map (\<lambda>kj. dot qi kj / sqrt (real d)) k) q"
  have w: "attention_weights m (triu_mask (length x)) x h
             = map2 masked_softmax (triu_mask (length x)) scores"
    by (simp add: attention_weights_def Let_def d_def q_def k_def scores_def)
  have ls: "length scores = length x" by (simp add: scores_def q_def)
  have lr: "length (scores ! i) = length x" using assms by (simp add: scores_def q_def k_def)
  have row: "attention_weights m (triu_mask (length x)) x h ! i
               = masked_softmax (map (\<lambda>j. i < j) [0..<length x]) (scores ! i)"
    using assms by (simp add: w ls triu_mask_shape triu_mask_nth)
  show "length (attention_weights m (triu_mask (length x)) x h) = length x"
    by (simp add: w ls triu_mask_shape)
  show "length (attention_weights m (triu_mask (length x)) x h ! i) = length x"
    unfolding row by (rule masked_softmax_causal(1) [OF lr assms])
  show "\<forall>j < length x. i < j \<longrightarrow> attention_weights m (triu_mask (length x)) x h ! i ! j = 0"
    unfolding row by (rule masked_softmax_causal(2) [OF lr assms])
  show "\<forall>j \<le> i. 0 < attention_weights m (triu_mask (length x)) x h ! i ! j"
    unfolding row by (rule masked_softmax_causal(3) [OF lr assms])
  show "sum_list (attention_weights m (triu_mask (length x)) x h ! i) = 1"
    unfolding row by (rule masked_softmax_causal(4) [OF lr assms])
qed

subsection \<open>Shapes through the layers\<close>

lemma linear_length: "wf_Linear n_in n_out True m \<Longrightarrow> length (linear m v) = n_out"
  by (auto simp: wf_Linear_def linear_def split: option.splits)

lemma linear_no_bias_length: "bias m = None \<Longrightarrow> length (linear m v) = length (weight m)"
  by (simp add: linear_def)

lemma layer_norm_length:
  "wf_LayerNorm n m \<Longrightarrow> length v = n \<Longrightarrow> length (layer_norm m v) = n"
  by (simp add: wf_LayerNorm_def layer_norm_def Let_def)

lemma wf_mk_linear: "wf_Linear n_in n_out True (mk_linear n_in n_out init)"
  by (simp add: wf_Linear_def mk_linear_def list_all_iff)

lemma add_mat_shape:
  assumes "length a = n" and "length b = n"
    and "list_all (\<lambda>u. length u = e) a" and "list_all (\<lambda>u. length u = e) b"
  shows "length (add_mat a b) = n" and "list_all (\<lambda>u. length u = e) (add_mat a b)"
proof -
  show "length (add_mat a b) = n" using assms(1,2) by (simp add: add_mat_def)
  have "\<forall>p \<in> set (zip a b). length (fst p) = e \<and> length (snd p) = e"
    using assms(3,4) by (auto simp: list_all_iff dest: set_zip_leftD set_zip_rightD)
  then show "list_all (\<lambda>u. length u = e) (add_mat a b)"
    by (auto simp: add_mat_def list_all_iff)
qed

lemma attention_output_shape:
  assumes "wf_Linear e e True (out_proj m)"
  shows "length (attention_output m x ws) = length x"
    and "list_all (\<lambda>u. length u = e) (attention_output m x ws)"
  using linear_length [OF assms] by (simp_all add: attention_output_def Let_def list_all_iff)

subsection \<open>The forward passes return, and keep the shape\<close>

lemma torch_mha_causal:
  assumes "list_all (\<lambda>u. length u = embed_dim m) x"
  shows "torch_mha m x (triu_mask (length x))
           = Inr (attention_output m x
                    (map (attention_weights m (triu_mask (length x)) x) [0..<num_heads m]))"
  using assms triu_mask_shape [of "length x"] by (auto simp: torch_mha_def list_all_iff)

lemma MultiheadAttention_forward_eq:
  assumes "mask self = triu_mask (att_context self)" and "length x \<le> att_context self"
    and "list_all (\<lambda>u. length u = embed_dim (mha self)) x"
  shows "MultiheadAttention_forward self x
           = Inr (map (linear (proj self))
                    (attention_output (mha self) x
                       (map (attention_weights (mha self) (triu_mask (length x)) x)
                          [0..<num_heads (mha self)])))"
  by (simp add: MultiheadAttention_forward_def Let_def mask_slice_causal [OF assms(1,2)]
      torch_mha_causal [OF assms(3)] bind_err_def)

lemma MultiheadAttention_forward_ok:
  assumes "wf_MultiheadAttention cfg self" and "length x \<le> context_length cfg"
    and "list_all (\<lambda>u. length u = emb_dim cfg) x"
  shows "\<exists>out. MultiheadAttention_forward self x = Inr out \<and> length out = length x
           \<and> list_all (\<lambda>u. length u = emb_dim cfg) out"
proof -
  have w: "mask self = triu_mask (att_context self)" "att_context self = context_length cfg"
    "embed_dim (mha self) = emb_dim cfg"
    "wf_Linear (emb_dim cfg) (emb_dim cfg) True (out_proj (mha self))"
    "wf_Linear (emb_dim cfg) (emb_dim cfg) True (proj self)"
    using assms(1) by (simp_all add: wf_MultiheadAttention_def)
  have c: "length x \<le> att_context self" using assms(2) w(2) by simp
  have e: "list_all (\<lambda>u. length u = embed_dim (mha self)) x" using assms(3) w(3) by simp
  show ?thesis
    unfolding MultiheadAttention_forward_eq [OF w(1) c e]
    using attention_output_shape(1) [OF w(4)] linear_length [OF w(5)]
    by (simp add: list_all_iff)
qed

lemma mk_linear_fields:
  "weight (mk_linear n_in n_out init) = map (\<lambda>r. map (fst init r) [0..<n_in]) [0..<n_out]"
  "bias (mk_linear n_in n_out init) = Some (map (snd init) [0..<n_out])"
  by (simp_all add: mk_linear_def)

lemma MultiheadAttention_init_facts:
  assumes "MultiheadAttention_init emb heads_n ctx q0 k0 v0 o0 p0 = Inr self"
  shows "att_context self = ctx" and "mask self = triu_mask ctx"
    and "num_heads (mha self) = heads_n" and "embed_dim (mha self) = emb"
    and "0 < heads_n" and "emb mod heads_n = 0" and "0 < emb"
    and "wf_Linear emb emb True (q_proj (mha self))"
    and "wf_Linear emb emb True (k_proj (mha self))"
    and "wf_Linear emb emb True (v_proj (mha self))"
    and "wf_Linear emb emb True (out_proj (mha self))"
    and "wf_Linear emb emb True (proj self)"
  using assms
  by (auto simp: MultiheadAttention_init_def wf_mk_linear split: if_splits)

lemma MultiheadAttention_init_wf:
  assumes "MultiheadAttention_init emb heads_n ctx q0 k0 v0 o0 p0 = Inr self"
  shows "wf_MultiheadAttention
           \<lparr>vocab = v, emb_dim = emb, heads = heads_n, layers = l, context_length = ctx\<rparr> self"
  using MultiheadAttention_init_facts [OF assms] by (simp add: wf_MultiheadAttention_def)

lemma Block_forward_ok:
  assumes "wf_Block cfg b" and "length x \<le> context_length cfg"
    and "list_all (\<lambda>u. length u = emb_dim cfg) x"
  shows "\<exists>out. Block_forward b x = Inr out \<and> length out = length x
           \<and> list_all (\<lambda>u. length u = emb_dim cfg) out"
proof -
  let ?e = "emb_dim cfg"
  have w: "wf_MultiheadAttention cfg (blk_mha b)" "wf_LayerNorm ?e (sa_norm b)"
    "wf_LayerNorm ?e (mlp_norm b)" "wf_Linear (4 * ?e) ?e True (mlp_fc2 b)"
    using assms(1) by (simp_all add: wf_Block_def)
  let ?n = "map (layer_norm (sa_norm b)) x"
  have n: "length ?n \<le> context_length cfg" "list_all (\<lambda>u. length u = ?e) ?n"
    using assms(2,3) layer_norm_length [OF w(2)] by (simp_all add: list_all_iff)
  from MultiheadAttention_forward_ok [OF w(1) n] obtain a where
    a: "MultiheadAttention_forward (blk_mha b) ?n = Inr a" "length a = length x"
    "list_all (\<lambda>u. length u = ?e) a"
    by auto
  let ?x1 = "add_mat x a"
  have x1: "length ?x1 = length x" "list_all (\<lambda>u. length u = ?e) ?x1"
    using add_mat_shape [OF refl a(2) assms(3) a(3)] by simp_all
  let ?m = "map (\<lambda>v. mlp b (layer_norm (mlp_norm b) v)) ?x1"
  have m: "length ?m = length x" "list_all (\<lambda>u. length u = ?e) ?m"
    using x1(1) linear_length [OF w(4)] by (simp_all add: mlp_def list_all_iff)
  have x2: "length (add_mat ?x1 ?m) = length x" "list_all (\<lambda>u. length u = ?e) (add_mat ?x1 ?m)"
    using add_mat_shape [OF x1(1) m(1) x1(2) m(2)] by simp_all
  show ?thesis
    using a(1) x2 by (simp add: Block_forward_def bind_err_def Let_def)
qed

lemma decoder_forward_ok:
  assumes "list_all (wf_Block cfg) bs" and "length x \<le> context_length cfg"
    and "list_all (\<lambda>u. length u = emb_dim cfg) x"
  shows "\<exists>out. decoder_forward bs x = Inr out \<and> length out = length x
           \<and> list_all (\<lambda>u. length u = emb_dim cfg) out"
  using assms
proof (induction bs arbitrary: x)
  case Nil
  then show ?case by simp
next
  case (Cons b bs)
  then obtain y where y: "Block_forward b x = Inr y" "length y = length x"
    "list_all (\<lambda>u. length u = emb_dim cfg) y"
    using Block_forward_ok [of cfg b x] by auto
  then obtain out where "decoder_forward bs y = Inr out" "length out = length y"
    "list_all (\<lambda>u. length u = emb_dim cfg) out"
    using Cons.IH [of y] Cons.prems by auto
  then show ?case using y by (simp add: bind_err_def)
qed

lemma GPT_forward_batch:
  assumes "GPT_forward g x = Inr out"
  shows "length out = length (rows x)"
proof -
  from assms obtain tok pe h where
    tok: "sequence_err (map (embedding (tok_embedding g)) (rows x)) = Inr tok"
    and h: "sequence_err (map (\<lambda>t. decoder_forward (decoder g) (add_mat t pe)) tok) = Inr h"
    and out: "out = map (map (\<lambda>v. linear (output_head g) (layer_norm (norm g) v))) h"
    by (auto simp: GPT_forward_def Let_def bind_err_def split: sum.splits if_splits)
  have "length tok = length (rows x)" using sequence_err_length [OF tok] by simp
  moreover have "length h = length tok" using sequence_err_length [OF h] by simp
  ultimately show ?thesis by (simp add: out)
qed

lemma GPT_forward_ok:
  assumes "wf_GPT cfg g" and "wf_ids (vocab cfg) B T x" and "T \<le> context_length cfg"
  shows "\<exists>logits. GPT_forward g x = Inr logits \<and> length logits = B
           \<and> list_all (\<lambda>m. length m = T \<and> list_all (\<lambda>v. length v = vocab cfg) m) logits"
proof -
  let ?e = "emb_dim cfg"
  have x: "dtype x = Long" "length (rows x) = B" "ncols x = T"
    "\<forall>r \<in> set (rows x). length r = T \<and> list_all (\<lambda>t. t < vocab cfg) r"
    using assms(2) by (simp_all add: wf_ids_def list_all_iff)
  have g: "length (pos_embedding g) = context_length cfg" "length (tok_embedding g) = vocab cfg"
    "list_all (wf_Block cfg) (decoder g)" "bias (output_head g) = None"
    "length (weight (output_head g)) = vocab cfg"
    "list_all (\<lambda>r. length r = ?e) (pos_embedding g)"
    "list_all (\<lambda>r. length r = ?e) (tok_embedding g)"
    using assms(1) by (auto simp: wf_GPT_def wf_Linear_def split: option.splits)
  have "\<forall>r \<in> set (rows x). \<exists>y. embedding (tok_embedding g) r = Inr y
           \<and> (length y = T \<and> list_all (\<lambda>u. length u = ?e) y)"
  proof
    fix r assume r: "r \<in> set (rows x)"
    then have ok: "list_all (\<lambda>i. i < length (tok_embedding g)) r" and lr: "length r = T"
      using x(4) g(2) by auto
    have "list_all (\<lambda>u. length u = ?e) (map (\<lambda>i. tok_embedding g ! i) r)"
      using ok g(7) by (auto simp: list_all_iff)
    then show "\<exists>y. embedding (tok_embedding g) r = Inr y
                 \<and> (length y = T \<and> list_all (\<lambda>u. length u = ?e) y)"
      using lr by (simp add: embedding_ok [OF ok])
  qed
  from sequence_err_all_ok [OF this] obtain tok where
    tok: "sequence_err (map (embedding (tok_embedding g)) (rows x)) = Inr tok"
    "length tok = B" "list_all (\<lambda>y. length y = T \<and> list_all (\<lambda>u. length u = ?e) y) tok"
    using x(2) by auto
  have pe: "embedding (pos_embedding g) [0..<T] = Inr (take T (pos_embedding g))"
    using assms(3) g(1) by (simp add: pos_embedding_lookup)
  let ?pe = "take T (pos_embedding g)"
  have pes: "length ?pe = T" "list_all (\<lambda>u. length u = ?e) ?pe"
    using assms(3) g(1,6) by (auto simp: list_all_iff dest: in_set_takeD)
  have "\<forall>t \<in> set tok. \<exists>y. decoder_forward (decoder g) (add_mat t ?pe) = Inr y \<and> length y = T"
  proof
    fix t assume "t \<in> set tok"
    then have t: "length t = T" "list_all (\<lambda>u. length u = ?e) t"
      using tok(3) by (simp_all add: list_all_iff)
    have l: "length (add_mat t ?pe) = T" "list_all (\<lambda>u. length u = ?e) (add_mat t ?pe)"
      using add_mat_shape [OF t(1) pes(1) t(2) pes(2)] by simp_all
    then have "length (add_mat t ?pe) \<le> context_length cfg" using assms(3) by simp
    from decoder_forward_ok [OF g(3) this l(2)] l(1)
    show "\<exists>y. decoder_forward (decoder g) (add_mat t ?pe) = Inr y \<and> length y = T"
      by auto
  qed
  from sequence_err_all_ok [OF this] obtain h where
    h: "sequence_err (map (\<lambda>t. decoder_forward (decoder g) (add_mat t ?pe)) tok) = Inr h"
    "length h = B" "list_all (\<lambda>y. length y = T) h"
    using tok(2) by auto
  let ?out = "map (map (\<lambda>v. linear (output_head g) (layer_norm (norm g) v))) h"
  have r: "GPT_forward g x = Inr ?out"
    using x(1,3) tok(1) pe h(1) by (simp add: GPT_forward_def Let_def bind_err_def)
  have "list_all (\<lambda>m. length m = T \<and> list_all (\<lambda>v. length v = vocab cfg) m) ?out"
    using h(3) g(4,5) by (simp add: list_all_iff linear_no_bias_length)
  then show ?thesis using r h(2) by simp
qed

lemma GPT_forward_too_long:
  assumes "length (pos_embedding g) < ncols x"
  shows "\<exists>e. GPT_forward g x = Inl e"
  using assms
  by (auto simp: GPT_forward_def Let_def bind_err_def pos_embedding_lookup split: sum.splits)

lemma GPT_forward_too_long_ids:
  assumes "wf_GPT cfg g" and "wf_ids (vocab cfg) B T x" and "context_length cfg < T"
  shows "GPT_forward g x = Inl IndexError"
proof -
  have x: "dtype x = Long" "ncols x = T"
    "\<forall>r \<in> set (rows x). list_all (\<lambda>t. t < vocab cfg) r"
    using assms(2) by (simp_all add: wf_ids_def list_all_iff)
  have g: "length (pos_embedding g) = context_length cfg" "length (tok_embedding g) = vocab cfg"
    using assms(1) by (auto simp: wf_GPT_def)
  have "\<forall>r \<in> set (rows x). \<exists>y. embedding (tok_embedding g) r = Inr y \<and> True"
    using x(3) g(2) by (auto simp: embedding_ok)
  from sequence_err_all_ok [OF this] obtain tok where
    tok: "sequence_err (map (embedding (tok_embedding g)) (rows x)) = Inr tok"
    by auto
  have pe: "embedding (pos_embedding g) [0..<T] = Inl IndexError"
    using assms(3) g(1) by (simp add: pos_embedding_lookup)
  show ?thesis
    using x(1,2) tok pe by (simp add: GPT_forward_def Let_def bind_err_def)
qed

subsection \<open>A position does not see the later ones\<close>

lemma masked_softmax_prefix:
  assumes "length sc = s" and "i < s"
  shows "masked_softmax (map (\<lambda>j. i < j) [0..<s]) sc
           = map (\<lambda>v. v / sum_list (map exp (take (Suc i) sc))) (map exp (take (Suc i) sc))
             @ replicate (s - Suc i) 0"
proof -
  define e where "e = map2 (\<lambda>b v. if b then 0 else exp v) (map (\<lambda>j. i < j) [0..<s]) sc"
  have e: "e = map exp (take (Suc i) sc) @ replicate (s - Suc i) 0"
  proof (rule nth_equalityI)
    have m: "min (length sc) (Suc i) = Suc i" using assms by simp
    have le: "length e = s" using assms(1) by (simp add: e_def)
    have "Suc i + (s - Suc i) = s" using assms(2) by simp
    then show "length e = length (map exp (take (Suc i) sc) @ replicate (s - Suc i) 0)"
      by (simp add: le m)
    fix j assume "j < length e"
    then have j: "j < s" using le by simp
    have ej: "e ! j = (if i < j then 0 else exp (sc ! j))"
      using j assms(1) by (simp add: e_def)
    show "e ! j = (map exp (take (Suc i) sc) @ replicate (s - Suc i) 0) ! j"
    proof (cases "i < j")
      case True
      then have "\<not> j < Suc i" by simp
      then show ?thesis using True j by (simp add: ej nth_append m)
    next
      case False
      then have "j < Suc i" by simp
      then show ?thesis using False by (simp add: ej nth_append m)
    qed
  qed
  have s: "sum_list e = sum_list (map exp (take (Suc i) sc))"
    by (simp add: e sum_list_replicate)
  have "masked_softmax (map (\<lambda>j. i < j) [0..<s]) sc = map (\<lambda>v. v / sum_list e) e"
    by (simp add: masked_softmax_def e_def Let_def)
  then show ?thesis
    unfolding s by (simp add: e)
qed

lemma attention_weights_prefix:
  assumes "i < length x"
  shows "attention_weights m (triu_mask (length x)) x h ! i
           = attention_weights m (triu_mask (Suc i)) (take (Suc i) x) h ! i
             @ replicate (length x - Suc i) 0"
proof -
  define d where "d = embed_dim m div num_heads m"
  define Q where "Q = (\<lambda>v. head_slice d h (linear (q_proj m) v))"
  define K where "K = (\<lambda>v. head_slice d h (linear (k_proj m) v))"
  define sc where "sc = (\<lambda>z :: mat. map (\<lambda>kj. dot (Q (z ! i)) kj / sqrt (real d)) (map K z))"
  have row: "attention_weights m (triu_mask (length z)) z h ! i
               = masked_softmax (map (\<lambda>j. i < j) [0..<length z]) (sc z)"
    if "i < length z" for z
    using that
    by (simp add: attention_weights_def Let_def d_def Q_def K_def sc_def triu_mask_shape
        triu_mask_nth)
  let ?x' = "take (Suc i) x"
  have l': "length ?x' = Suc i" using assms by (simp add: min_def)
  have i': "i < length ?x'" using l' by simp
  have sc': "sc ?x' = take (Suc i) (sc x)"
    by (simp add: sc_def take_map)
  have a: "attention_weights m (triu_mask (length x)) x h ! i
             = map (\<lambda>v. v / sum_list (map exp (take (Suc i) (sc x)))) (map exp (take (Suc i) (sc x)))
               @ replicate (length x - Suc i) 0"
    unfolding row [OF assms]
    by (rule masked_softmax_prefix) (use assms in \<open>simp_all add: sc_def\<close>)
  have "attention_weights m (triu_mask (length ?x')) ?x' h ! i
             = map (\<lambda>v. v / sum_list (map exp (take (Suc i) (sc ?x')))) (map exp (take (Suc i) (sc ?x')))
               @ replicate (length ?x' - Suc i) 0"
    unfolding row [OF i']
    by (rule masked_softmax_prefix) (use i' in \<open>simp_all add: sc_def\<close>)
  then have b: "attention_weights m (triu_mask (Suc i)) ?x' h ! i
             = map (\<lambda>v. v / sum_list (map exp (take (Suc i) (sc x)))) (map exp (take (Suc i) (sc x)))"
    unfolding l' sc' by simp
  show ?thesis unfolding a b ..
qed

lemma foldr_zero_weights:
  assumes "length acc = d" and "\<forall>v \<in> set vs. length v = d"
  shows "foldr (\<lambda>(a, v) acc. map2 (+) (map ((*) a) v) acc) (zip (replicate n (0::real)) vs) acc
           = acc"
  using assms(2)
proof (induction vs arbitrary: n)
  case Nil
  then show ?case by simp
next
  case (Cons v vs)
  show ?case
  proof (cases n)
    case 0
    then show ?thesis by simp
  next
    case (Suc n')
    have ih: "foldr (\<lambda>(a, v) acc. map2 (+) (map ((*) a) v) acc) (zip (replicate n' (0::real)) vs) acc
                = acc"
      using Cons by simp
    have "map2 (+) (map ((*) 0) v) acc = acc"
      using Cons.prems assms(1) by (intro nth_equalityI) simp_all
    then show ?thesis by (simp add: Suc ih)
  qed
qed

lemma weighted_sum_padded:
  assumes "\<forall>v \<in> set vs. length v = d" and "length w \<le> length vs"
  shows "weighted_sum d (w @ replicate n 0) vs = weighted_sum d w (take (length w) vs)"
proof -
  have r: "\<forall>v \<in> set (drop (length w) vs). length v = d"
    using assms(1) by (meson in_set_dropD)
  have z: "foldr (\<lambda>(a, v) acc. map2 (+) (map ((*) a) v) acc)
             (zip (replicate n 0) (drop (length w) vs)) (replicate d 0) = replicate d 0"
    by (rule foldr_zero_weights [OF _ r]) simp
  show ?thesis
    unfolding weighted_sum_def zip_append1 foldr_append comp_def z by (rule refl)
qed

lemma head_slice_length:
  assumes "wf_Linear e e True lin" and "e = H * d" and "h < H"
  shows "length (head_slice d h (linear lin u)) = d"
proof -
  obtain r where r: "H - h = Suc r" using assms(3) by (cases "H - h") simp_all
  have "e - h * d = (H - h) * d" unfolding assms(2) by (simp only: diff_mult_distrib)
  then have "d \<le> e - h * d" by (simp add: r)
  then have "min (e - h * d) d = d" by simp
  then show ?thesis
    using linear_length [OF assms(1), of u] by (simp add: head_slice_def)
qed

lemma head_output_prefix:
  assumes "wf_Linear (embed_dim m) (embed_dim m) True (v_proj m)"
    and "embed_dim m mod num_heads m = 0" and "h < num_heads m" and "i < length x"
  shows "head_output m x h (attention_weights m (triu_mask (length x)) x h) ! i
           = head_output m (take (Suc i) x) h
               (attention_weights m (triu_mask (Suc i)) (take (Suc i) x) h) ! i"
proof -
  define d where "d = embed_dim m div num_heads m"
  define V where "V = (\<lambda>u. head_slice d h (linear (v_proj m) u))"
  let ?x' = "take (Suc i) x"
  let ?W = "attention_weights m (triu_mask (length x)) x h"
  let ?W' = "attention_weights m (triu_mask (Suc i)) ?x' h"
  have l': "length ?x' = Suc i" using assms(4) by (simp add: min_def)
  have e: "embed_dim m = num_heads m * d"
    unfolding d_def using assms(2) by (metis add.right_neutral mult_div_mod_eq)
  have vl: "\<forall>v \<in> set (map V x). length v = d"
    using head_slice_length [OF assms(1) e assms(3)] by (simp add: V_def)
  have lw: "length ?W = length x" by (rule attention_weights_causal(1) [OF assms(4)])
  have lw': "length ?W' = Suc i"
    using attention_weights_causal(1) [of i ?x' m h] l' by simp
  have lr': "length (?W' ! i) = Suc i"
    using attention_weights_causal(2) [of i ?x' m h] l' by simp
  have "head_output m x h ?W ! i = weighted_sum d (?W ! i) (map V x)"
    using assms(4) lw by (simp add: head_output_def Let_def d_def V_def)
  also have "\<dots> = weighted_sum d (?W' ! i @ replicate (length x - Suc i) 0) (map V x)"
    by (simp only: attention_weights_prefix [OF assms(4)])
  also have "\<dots> = weighted_sum d (?W' ! i) (take (length (?W' ! i)) (map V x))"
    using assms(4) by (intro weighted_sum_padded [OF vl]) (simp add: lr')
  also have "\<dots> = weighted_sum d (?W' ! i) (map V ?x')"
    by (simp add: lr' take_map)
  also have "\<dots> = head_output m ?x' h ?W' ! i"
    using lw' by (simp add: head_output_def Let_def d_def V_def)
  finally show ?thesis .
qed

lemma attention_output_prefix:
  assumes "wf_Linear (embed_dim m) (embed_dim m) True (v_proj m)"
    and "embed_dim m mod num_heads m = 0" and "i < length x"
  shows "attention_output m x
           (map (attention_weights m (triu_mask (length x)) x) [0..<num_heads m]) ! i
         = attention_output m (take (Suc i) x)
             (map (attention_weights m (triu_mask (Suc i)) (take (Suc i) x)) [0..<num_heads m]) ! i"
proof -
  let ?x' = "take (Suc i) x"
  have l': "length ?x' = Suc i" using assms(3) by (simp add: min_def)
  have heads: "map (\<lambda>h. head_output m x h
                    (map (attention_weights m (triu_mask (length x)) x) [0..<num_heads m] ! h) ! i)
                 [0..<num_heads m]
             = map (\<lambda>h. head_output m ?x' h
                    (map (attention_weights m (triu_mask (Suc i)) ?x') [0..<num_heads m] ! h) ! i)
                 [0..<num_heads m]"
    using head_output_prefix [OF assms(1,2) _ assms(3)] by (intro map_cong) simp_all
  have "attention_output m x
           (map (attention_weights m (triu_mask (length x)) x) [0..<num_heads m]) ! i
        = linear (out_proj m) (concat (map (\<lambda>h. head_output m x h
                    (map (attention_weights m (triu_mask (length x)) x) [0..<num_heads m] ! h) ! i)
                 [0..<num_heads m]))"
    using assms(3) by (simp add: attention_output_def Let_def comp_def)
  also have "\<dots> = attention_output m ?x'
             (map (attention_weights m (triu_mask (Suc i)) ?x') [0..<num_heads m]) ! i"
    unfolding heads using l' by (simp add: attention_output_def Let_def comp_def del: upt_Suc)
  finally show ?thesis .
qed

lemma MultiheadAttention_forward_prefix:
  assumes "mask self = triu_mask (att_context self)" and "length x \<le> att_context self"
    and "list_all (\<lambda>u. length u = embed_dim (mha self)) x"
    and "wf_Linear (embed_dim (mha self)) (embed_dim (mha self)) True (v_proj (mha self))"
    and "wf_Linear (embed_dim (mha self)) (embed_dim (mha self)) True (out_proj (mha self))"
    and "embed_dim (mha self) mod num_heads (mha self) = 0" and "i < length x"
  shows "\<exists>out out'. MultiheadAttention_forward self x = Inr out
           \<and> MultiheadAttention_forward self (take (Suc i) x) = Inr out'
           \<and> length out = length x \<and> length out' = Suc i \<and> out ! i = out' ! i"
proof -
  let ?m = "mha self"
  let ?x' = "take (Suc i) x"
  have l': "length ?x' = Suc i" using assms(7) by (simp add: min_def)
  have c': "length ?x' \<le> att_context self" using assms(2,7) l' by simp
  have e': "list_all (\<lambda>u. length u = embed_dim ?m) ?x'"
    using assms(3) by (auto simp: list_all_iff dest: in_set_takeD)
  let ?a = "attention_output ?m x
              (map (attention_weights ?m (triu_mask (length x)) x) [0..<num_heads ?m])"
  let ?a' = "attention_output ?m ?x'
              (map (attention_weights ?m (triu_mask (Suc i)) ?x') [0..<num_heads ?m])"
  have f: "MultiheadAttention_forward self x = Inr (map (linear (proj self)) ?a)"
    by (rule MultiheadAttention_forward_eq [OF assms(1,2,3)])
  have f': "MultiheadAttention_forward self ?x' = Inr (map (linear (proj self)) ?a')"
    using MultiheadAttention_forward_eq [OF assms(1) c' e'] by (simp only: l')
  have la: "length ?a = length x" "length ?a' = Suc i"
    using attention_output_shape(1) [OF assms(5)] l' by simp_all
  have "?a ! i = ?a' ! i"
    by (rule attention_output_prefix [OF assms(4,6,7)])
  then have "map (linear (proj self)) ?a ! i = map (linear (proj self)) ?a' ! i"
    using la assms(7) by simp
  then show ?thesis using f f' la by simp
qed

text \<open>
  Claim C1. For an attention sublayer as its constructor builds it, and an element \<open>x\<close>
  of an input batch with \<open>seq_len \<le> context\<close> positions of width \<open>emb_dim\<close>: the forward
  pass returns the projection of the attention output computed with the weights \<open>ws\<close>
  of the causal mask, and in every head the weight of a position \<open>i\<close> for a later
  position \<open>j\<close> is exactly \<open>0\<close>, the weights of position \<open>i\<close> for itself and the earlier
  positions are positive, and the weights of position \<open>i\<close> sum to \<open>1\<close>. So position \<open>i\<close>
  attends to itself and the earlier positions only: the output of the forward pass
  at position \<open>i\<close> is the same for every input that agrees with \<open>x\<close> up to position
  \<open>i\<close>.
\<close>

theorem causal_attention_weights:
  assumes "MultiheadAttention_init emb heads_n ctx q0 k0 v0 o0 p0 = Inr self"
    and "length x \<le> ctx" and "list_all (\<lambda>u. length u = emb) x"
    and "i < j" and "j < length x"
  shows "(let attn_mask = mask_slice self (min (length x) (att_context self));
              ws = map (attention_weights (mha self) attn_mask x) [0..<num_heads (mha self)]
          in MultiheadAttention_forward self x
               = Inr (map (linear (proj self)) (attention_output (mha self) x ws))
           \<and> (\<forall>h < num_heads (mha self).
                  ws ! h ! i ! j = 0 \<and> (\<forall>j' \<le> i. 0 < ws ! h ! i ! j') \<and> sum_list (ws ! h ! i) = 1))
       \<and> (\<forall>y. length y \<le> ctx \<and> list_all (\<lambda>u. length u = emb) y \<and> i < length y
                \<and> take (Suc i) y = take (Suc i) x
              \<longrightarrow> (\<exists>out out'. MultiheadAttention_forward self x = Inr out
                     \<and> MultiheadAttention_forward self y = Inr out' \<and> out' ! i = out ! i))"
proof -
  note f = MultiheadAttention_init_facts [OF assms(1)]
  have m: "mask self = triu_mask (att_context self)" and c: "length x \<le> att_context self"
    and e: "list_all (\<lambda>u. length u = embed_dim (mha self)) x"
    using f(1,2,4) assms(2,3) by simp_all
  have wv: "wf_Linear (embed_dim (mha self)) (embed_dim (mha self)) True (v_proj (mha self))"
    and wo: "wf_Linear (embed_dim (mha self)) (embed_dim (mha self)) True (out_proj (mha self))"
    and dv: "embed_dim (mha self) mod num_heads (mha self) = 0"
    using f by simp_all
  have i: "i < length x" using assms(4,5) by simp
  let ?ws = "map (attention_weights (mha self) (triu_mask (length x)) x) [0..<num_heads (mha self)]"
  have fw: "MultiheadAttention_forward self x
              = Inr (map (linear (proj self)) (attention_output (mha self) x ?ws))"
    by (rule MultiheadAttention_forward_eq [OF m c e])
  have w: "\<forall>h < num_heads (mha self).
             ?ws ! h ! i ! j = 0 \<and> (\<forall>j' \<le> i. 0 < ?ws ! h ! i ! j') \<and> sum_list (?ws ! h ! i) = 1"
  proof (intro allI impI)
    fix h assume h: "h < num_heads (mha self)"
    have "attention_weights (mha self) (triu_mask (length x)) x h ! i ! j = 0"
      using attention_weights_causal(3) [OF i] assms(4,5) by blast
    moreover have "\<forall>j' \<le> i. 0 < attention_weights (mha self) (triu_mask (length x)) x h ! i ! j'"
      by (rule attention_weights_causal(4) [OF i])
    moreover have "sum_list (attention_weights (mha self) (triu_mask (length x)) x h ! i) = 1"
      by (rule attention_weights_causal(5) [OF i])
    ultimately show "?ws ! h ! i ! j = 0 \<and> (\<forall>j' \<le> i. 0 < ?ws ! h ! i ! j')
                       \<and> sum_list (?ws ! h ! i) = 1"
      using h by simp
  qed
  have causal: "\<forall>y. length y \<le> ctx \<and> list_all (\<lambda>u. length u = emb) y \<and> i < length y
                \<and> take (Suc i) y = take (Suc i) x
              \<longrightarrow> (\<exists>out out'. MultiheadAttention_forward self x = Inr out
                     \<and> MultiheadAttention_forward self y = Inr out' \<and> out' ! i = out ! i)"
  proof (intro allI impI)
    fix y
    assume y: "length y \<le> ctx \<and> list_all (\<lambda>u. length u = emb) y \<and> i < length y
                \<and> take (Suc i) y = take (Suc i) x"
    then have cy: "length y \<le> att_context self"
      and ey: "list_all (\<lambda>u. length u = embed_dim (mha self)) y" and iy: "i < length y"
      using f(1,4) by simp_all
    from MultiheadAttention_forward_prefix [OF m c e wv wo dv i] obtain out p where
      o: "MultiheadAttention_forward self x = Inr out"
      "MultiheadAttention_forward self (take (Suc i) x) = Inr p" "out ! i = p ! i"
      by blast
    from MultiheadAttention_forward_prefix [OF m cy ey wv wo dv iy] obtain out' p' where
      o': "MultiheadAttention_forward self y = Inr out'"
      "MultiheadAttention_forward self (take (Suc i) y) = Inr p'" "out' ! i = p' ! i"
      by blast
    have "p' = p" using o(2) o'(2) y by simp
    then show "\<exists>out out'. MultiheadAttention_forward self x = Inr out
                     \<and> MultiheadAttention_forward self y = Inr out' \<and> out' ! i = out ! i"
      using o o' by simp
  qed
  show ?thesis
    unfolding Let_def mask_slice_causal [OF m c] using fw w causal by (intro conjI)
qed

lemma toy_attention_init:
  "MultiheadAttention_init 2 1 3 zero_init zero_init zero_init zero_init zero_init
     = Inr toy_attention"
  by (simp add: MultiheadAttention_init_def toy_attention_def mk_linear_def zeros_linear_def
      zero_init_def eval_nat_numeral)

theorem causal_attention_weights_witness:
  "MultiheadAttention_init 2 1 3 zero_init zero_init zero_init zero_init zero_init
     = Inr toy_attention
   \<and> length [[1, 2], [3, 4 :: real]] \<le> 3 \<and> list_all (\<lambda>u. length u = 2) [[1, 2], [3, 4 :: real]]
   \<and> (0::nat) < 1 \<and> 1 < length [[1, 2], [3, 4 :: real]]
   \<and> attention_weights (mha toy_attention) (mask_slice toy_attention 2) [[1, 2], [3, 4]] 0 ! 0 ! 1
       = 0
   \<and> (\<exists>out out'. MultiheadAttention_forward toy_attention [[1, 2], [3, 4]] = Inr out
          \<and> MultiheadAttention_forward toy_attention [[1, 2], [5, 6]] = Inr out'
          \<and> out' ! 0 = out ! 0)"
proof -
  have l: "length [[1, 2], [3, 4 :: real]] \<le> 3"
    and e: "list_all (\<lambda>u. length u = 2) [[1, 2], [3, 4 :: real]]"
    and o: "(0::nat) < 1" and j: "1 < length [[1, 2], [3, 4 :: real]]"
    by simp_all
  have c: "min (length [[1, 2], [3, 4 :: real]]) (att_context toy_attention) = 2"
    and h: "num_heads (mha toy_attention) = 1"
    by (simp_all add: toy_attention_def)
  note t = causal_attention_weights [OF toy_attention_init l e o j, unfolded Let_def c h]
  have a: "attention_weights (mha toy_attention) (mask_slice toy_attention 2) [[1, 2], [3, 4]] 0
             ! 0 ! 1 = 0"
    using t by simp
  have y: "length [[1, 2], [5, 6 :: real]] \<le> 3
            \<and> list_all (\<lambda>u. length u = 2) [[1, 2], [5, 6 :: real]]
            \<and> 0 < length [[1, 2], [5, 6 :: real]]
            \<and> take (Suc 0) [[1, 2], [5, 6 :: real]] = take (Suc 0) [[1, 2], [3, 4]]"
    by simp
  have b: "\<exists>out out'. MultiheadAttention_forward toy_attention [[1, 2], [3, 4]] = Inr out
          \<and> MultiheadAttention_forward toy_attention [[1, 2], [5, 6]] = Inr out'
          \<and> out' ! 0 = out ! 0"
    using t y by blast
  show ?thesis
    using toy_attention_init l e o j a b by (intro conjI)
qed

subsection \<open>The small model is well-formed\<close>

lemma wf_toy_gpt: "wf_GPT toy_config toy_gpt"
  by (simp add: wf_GPT_def wf_config_def wf_Block_def wf_MultiheadAttention_def wf_Linear_def
      wf_LayerNorm_def toy_config_def toy_gpt_def toy_block_def toy_attention_def
      zeros_linear_def ones_norm_def list_all_iff)

text \<open>
  Claim C7. For a model as the constructor builds it: the forward pass fails on every
  batch whose sequence length exceeds the context length; on a batch of token ids of
  shape \<open>[B, T]\<close>, every id below the vocabulary size, it fails with the index error
  of the positional lookup when \<open>T\<close> exceeds the context length, and returns logits
  of shape \<open>[B, T, vocab]\<close> when \<open>T\<close> is at most the context length.
\<close>

theorem forward_sequence_length:
  assumes "wf_GPT cfg model"
  shows "(context_length cfg < ncols x \<longrightarrow> (\<exists>e. GPT_forward model x = Inl e))
       \<and> (wf_ids (vocab cfg) B T x \<and> context_length cfg < T \<longrightarrow>
            GPT_forward model x = Inl IndexError)
       \<and> (wf_ids (vocab cfg) B T x \<and> T \<le> context_length cfg \<longrightarrow>
            (\<exists>logits. GPT_forward model x = Inr logits \<and> length logits = B
               \<and> list_all (\<lambda>m. length m = T \<and> list_all (\<lambda>v. length v = vocab cfg) m) logits))"
proof (intro conjI impI)
  assume "context_length cfg < ncols x"
  then have "length (pos_embedding model) < ncols x"
    using assms by (simp add: wf_GPT_def)
  then show "\<exists>e. GPT_forward model x = Inl e" by (rule GPT_forward_too_long)
next
  assume "wf_ids (vocab cfg) B T x \<and> context_length cfg < T"
  then show "GPT_forward model x = Inl IndexError"
    using GPT_forward_too_long_ids [OF assms] by blast
next
  assume "wf_ids (vocab cfg) B T x \<and> T \<le> context_length cfg"
  then show "\<exists>logits. GPT_forward model x = Inr logits \<and> length logits = B
               \<and> list_all (\<lambda>m. length m = T \<and> list_all (\<lambda>v. length v = vocab cfg) m) logits"
    using GPT_forward_ok [OF assms] by blast
qed

theorem forward_sequence_length_witness:
  "wf_GPT toy_config toy_gpt
   \<and> wf_ids 5 1 4 \<lparr>dtype = Long, rows = [[0, 1, 2, 3]], ncols = 4\<rparr>
   \<and> GPT_forward toy_gpt \<lparr>dtype = Long, rows = [[0, 1, 2, 3]], ncols = 4\<rparr> = Inl IndexError
   \<and> wf_ids 5 2 3 \<lparr>dtype = Long, rows = [[0, 1, 2], [4, 4, 4]], ncols = 3\<rparr>
   \<and> (\<exists>logits. GPT_forward toy_gpt \<lparr>dtype = Long, rows = [[0, 1, 2], [4, 4, 4]], ncols = 3\<rparr>
                  = Inr logits
          \<and> length logits = 2
          \<and> list_all (\<lambda>m. length m = 3 \<and> list_all (\<lambda>v. length v = 5) m) logits)"
proof -
  have v: "vocab toy_config = 5" and c: "context_length toy_config = 3"
    by (simp_all add: toy_config_def)
  have a: "wf_ids (vocab toy_config) 1 4 \<lparr>dtype = Long, rows = [[0, 1, 2, 3]], ncols = 4\<rparr>"
    by (simp add: wf_ids_def v)
  have b: "wf_ids (vocab toy_config) 2 3
             \<lparr>dtype = Long, rows = [[0, 1, 2], [4, 4, 4]], ncols = 3\<rparr>"
    by (simp add: wf_ids_def v)
  have "GPT_forward toy_gpt \<lparr>dtype = Long, rows = [[0, 1, 2, 3]], ncols = 4\<rparr> = Inl IndexError"
    using forward_sequence_length [OF wf_toy_gpt, of _ 1 4] a by (simp add: c)
  moreover have "\<exists>logits. GPT_forward toy_gpt
                     \<lparr>dtype = Long, rows = [[0, 1, 2], [4, 4, 4]], ncols = 3\<rparr> = Inr logits
          \<and> length logits = 2
          \<and> list_all (\<lambda>m. length m = 3 \<and> list_all (\<lambda>v. length v = 5) m) logits"
    using forward_sequence_length [OF wf_toy_gpt, of _ 2 3] b by (simp add: c v)
  ultimately show ?thesis
    using wf_toy_gpt a b by (simp add: v)
qed

section \<open>Properties of generation\<close>

subsection \<open>Choosing one token\<close>

lemma last_position_length: "last_position logits = Inr l \<Longrightarrow> length l = length logits"
  unfolding last_position_def by (drule sequence_err_length) simp

lemma last_position_single: "m \<noteq> [] \<Longrightarrow> last_position [m] = Inr [last m]"
  by (simp add: last_position_def)

lemma topk_length: "topk order logits k = Inr probs \<Longrightarrow> length probs = length logits"
  by (auto simp: topk_def bind_err_def Let_def split: sum.splits prod.splits)

lemma torch_multinomial_single: "torch_multinomial draw [p] = Inr out \<Longrightarrow> \<exists>i. out = [[i]]"
  by (auto simp: torch_multinomial_def multinomial_row_def split: if_splits)

lemma one_token_greedy: "one_token (\<lambda>step. next_greedy)"
  unfolding one_token_def
proof (intro allI impI)
  fix step :: nat and logits out
  assume h: "length logits = 1 \<and> next_greedy logits = Inr out"
  then obtain row where "logits = [row]" by (cases logits) auto
  then show "\<exists>i. out = [[i]]"
    using h by (auto simp: next_greedy_def torch_argmax_def split: if_splits)
qed

lemma one_token_topk: "one_token (pick_topk order draws temp)"
  unfolding one_token_def
proof (intro allI impI)
  fix step :: nat and logits out
  assume h: "length logits = 1 \<and> pick_topk order draws temp step logits = Inr out"
  then obtain probs where p: "topk order (div_temp logits temp) 5 = Inr probs"
    and m: "torch_multinomial (draws step) probs = Inr out"
    by (auto simp: pick_topk_def next_topk_def bind_err_def split: sum.splits)
  have "length probs = 1"
    using topk_length [OF p] h by (simp add: div_temp_def)
  then obtain q where "probs = [q]" by (cases probs) auto
  then show "\<exists>i. out = [[i]]" using torch_multinomial_single m by blast
qed

lemma total_on_greedy: "0 < V \<Longrightarrow> total_on V Q (\<lambda>step. next_greedy)"
  unfolding total_on_def
proof (intro allI impI)
  fix step :: nat and row :: vec
  assume "0 < V" and "length row = V \<and> Q row"
  then have ne: "row \<noteq> []" and len: "length row = V" by auto
  then have "argmax_row row < V"
    using argmax_row_first_max [OF ne] by simp
  then show "\<exists>i < V. next_greedy [row] = Inr [[i]]"
    using next_greedy_single [OF ne] by blast
qed

lemma total_on_topk:
  assumes "valid_ranking order" and "\<forall>step. valid_draw (draws step)" and "5 \<le> V"
  shows "total_on V (finite_quotients temp) (pick_topk order draws temp)"
  unfolding total_on_def
proof (intro allI impI)
  fix step :: nat and row :: vec
  assume h: "length row = V \<and> finite_quotients temp row"
  then have k: "(1::int) \<le> 5" "5 \<le> int (length row)" using assms(3) by simp_all
  have d: "valid_draw (draws step)" using assms(2) by simp
  from next_topk_ok [OF assms(1) d _ k, of temp] h
  show "\<exists>i < V. pick_topk order draws temp step [row] = Inr [[i]]"
    unfolding pick_topk_def by blast
qed

subsection \<open>The generation loop\<close>

lemma cat_dim1_single:
  "rows ids = [toks] \<Longrightarrow> rows (cat_dim1 ids [[i]]) = [toks @ [i]]"
  by (simp add: cat_dim1_def)

lemma generate_loop_shape:
  assumes "one_token pick"
    and "generate_loop g tok pick step n (ids, pre) = Inr (ids', pre')"
    and "rows ids = [toks]"
  shows "\<exists>new. length new = n \<and> rows ids' = [toks @ new] \<and> ncols ids' = ncols ids + n
           \<and> pre' = pre @ concat (map (\<lambda>t. decode tok [t]) new)"
  using assms(2,3)
proof (induction n arbitrary: step ids pre toks)
  case 0
  then show ?case by simp
next
  case (Suc n)
  from Suc.prems(1) obtain logits l nxt where
    f: "GPT_forward g ids = Inr logits" and l: "last_position logits = Inr l"
    and p: "pick step l = Inr nxt"
    and r: "generate_loop g tok pick (Suc step) n
              (cat_dim1 ids nxt, pre @ decode tok (concat nxt)) = Inr (ids', pre')"
    by (auto simp: bind_err_def split: sum.splits)
  have "length l = 1"
    using GPT_forward_batch [OF f] last_position_length [OF l] Suc.prems(2) by simp
  then obtain i where nxt: "nxt = [[i]]"
    using assms(1) p unfolding one_token_def by blast
  have rows: "rows (cat_dim1 ids nxt) = [(toks @ [i])]"
    unfolding nxt by (rule cat_dim1_single [OF Suc.prems(2)])
  from Suc.IH [OF r rows] obtain new where
    new: "length new = n" "rows ids' = [(toks @ [i]) @ new]"
    "ncols ids' = ncols (cat_dim1 ids nxt) + n"
    "pre' = (pre @ decode tok (concat nxt)) @ concat (map (\<lambda>t. decode tok [t]) new)"
    by blast
  show ?case
    using new by (intro exI [of _ "i # new"]) (simp add: nxt cat_dim1_def)
qed

lemma generate_step:
  assumes "wf_GPT cfg g" and "scores_satisfy g Q" and "total_on (vocab cfg) Q pick"
    and "toks \<noteq> []" and "list_all (\<lambda>t. t < vocab cfg) toks"
    and "length toks \<le> context_length cfg"
  shows "\<exists>i < vocab cfg.
           generate_loop g tok pick step (Suc n)
             (\<lparr>dtype = Long, rows = [toks], ncols = length toks\<rparr>, pre)
           = generate_loop g tok pick (Suc step) n
               (\<lparr>dtype = Long, rows = [toks @ [i]], ncols = length (toks @ [i])\<rparr>,
                pre @ decode tok [i])"
proof -
  let ?ids = "\<lparr>dtype = Long, rows = [toks], ncols = length toks\<rparr>"
  have ids: "wf_ids (vocab cfg) 1 (length toks) ?ids"
    using assms(5) by (simp add: wf_ids_def)
  from GPT_forward_ok [OF assms(1) ids assms(6)] obtain logits where
    f: "GPT_forward g ?ids = Inr logits" and "length logits = 1"
    and sh: "list_all (\<lambda>m. length m = length toks \<and> list_all (\<lambda>v. length v = vocab cfg) m) logits"
    by blast
  then obtain m where m: "logits = [m]" by (cases logits) auto
  have ne: "m \<noteq> []" using sh assms(4) by (auto simp: m)
  then have mem: "last m \<in> set m" by simp
  then have lv: "length (last m) = vocab cfg" using sh by (auto simp: m list_all_iff)
  have "list_all (list_all Q) logits"
    using assms(2) f unfolding scores_satisfy_def by blast
  then have q: "Q (last m)" using mem by (simp add: m list_all_iff)
  from assms(3) lv q obtain i where i: "i < vocab cfg" "pick step [last m] = Inr [[i]]"
    unfolding total_on_def by blast
  have "cat_dim1 ?ids [[i]] = \<lparr>dtype = Long, rows = [toks @ [i]], ncols = length (toks @ [i])\<rparr>"
    by (simp add: cat_dim1_def)
  then have "generate_loop g tok pick step (Suc n) (?ids, pre)
           = generate_loop g tok pick (Suc step) n
               (\<lparr>dtype = Long, rows = [toks @ [i]], ncols = length (toks @ [i])\<rparr>,
                pre @ decode tok [i])"
    using f i(2) by (simp add: m last_position_single [OF ne] bind_err_def)
  then show ?thesis using i(1) by blast
qed

lemma generate_loop_ok:
  assumes "wf_GPT cfg g" and "scores_satisfy g Q" and "total_on (vocab cfg) Q pick"
    and "toks \<noteq> []" and "list_all (\<lambda>t. t < vocab cfg) toks"
    and "n = 0 \<or> length toks + n \<le> context_length cfg + 1"
  shows "\<exists>new. length new = n \<and> list_all (\<lambda>t. t < vocab cfg) new
           \<and> generate_loop g tok pick step n
                 (\<lparr>dtype = Long, rows = [toks], ncols = length toks\<rparr>, pre)
               = Inr (\<lparr>dtype = Long, rows = [toks @ new], ncols = length toks + n\<rparr>,
                      pre @ concat (map (\<lambda>t. decode tok [t]) new))"
  using assms(4-6)
proof (induction n arbitrary: step toks pre)
  case 0
  then show ?case by simp
next
  case (Suc n)
  then have len: "length toks \<le> context_length cfg" by simp
  from generate_step [OF assms(1-3) Suc.prems(1,2) len, of tok step n pre] obtain i where
    i: "i < vocab cfg"
    and eq: "generate_loop g tok pick step (Suc n)
               (\<lparr>dtype = Long, rows = [toks], ncols = length toks\<rparr>, pre)
             = generate_loop g tok pick (Suc step) n
                 (\<lparr>dtype = Long, rows = [toks @ [i]], ncols = length (toks @ [i])\<rparr>,
                  pre @ decode tok [i])"
    by blast
  have "\<exists>new. length new = n \<and> list_all (\<lambda>t. t < vocab cfg) new
          \<and> generate_loop g tok pick (Suc step) n
                (\<lparr>dtype = Long, rows = [toks @ [i]], ncols = length (toks @ [i])\<rparr>,
                 pre @ decode tok [i])
              = Inr (\<lparr>dtype = Long, rows = [(toks @ [i]) @ new],
                      ncols = length (toks @ [i]) + n\<rparr>,
                     (pre @ decode tok [i]) @ concat (map (\<lambda>t. decode tok [t]) new))"
    using Suc.prems i by (intro Suc.IH) simp_all
  then obtain new where new: "length new = n" "list_all (\<lambda>t. t < vocab cfg) new"
    "generate_loop g tok pick (Suc step) n
                (\<lparr>dtype = Long, rows = [toks @ [i]], ncols = length (toks @ [i])\<rparr>,
                 pre @ decode tok [i])
              = Inr (\<lparr>dtype = Long, rows = [(toks @ [i]) @ new],
                      ncols = length (toks @ [i]) + n\<rparr>,
                     (pre @ decode tok [i]) @ concat (map (\<lambda>t. decode tok [t]) new))"
    by blast
  show ?case
    unfolding eq new(3) using new(1,2) i by (intro exI [of _ "i # new"]) simp
qed

lemma generate_loop_fail:
  assumes "wf_GPT cfg g" and "scores_satisfy g Q" and "total_on (vocab cfg) Q pick"
    and "toks \<noteq> []" and "list_all (\<lambda>t. t < vocab cfg) toks"
    and "0 < n" and "context_length cfg + 1 < length toks + n"
  shows "generate_loop g tok pick step n
           (\<lparr>dtype = Long, rows = [toks], ncols = length toks\<rparr>, pre) = Inl IndexError"
  using assms(4-7)
proof (induction n arbitrary: step toks pre)
  case 0
  then show ?case by simp
next
  case (Suc n)
  let ?ids = "\<lparr>dtype = Long, rows = [toks], ncols = length toks\<rparr>"
  show ?case
  proof (cases "length toks \<le> context_length cfg")
    case False
    have ids: "wf_ids (vocab cfg) 1 (length toks) ?ids"
      using Suc.prems(2) by (simp add: wf_ids_def)
    have "GPT_forward g ?ids = Inl IndexError"
      using False by (intro GPT_forward_too_long_ids [OF assms(1) ids]) simp
    then show ?thesis by (simp add: bind_err_def)
  next
    case True
    from generate_step [OF assms(1-3) Suc.prems(1,2) True, of tok step n pre] obtain i where
      i: "i < vocab cfg"
      and eq: "generate_loop g tok pick step (Suc n) (?ids, pre)
               = generate_loop g tok pick (Suc step) n
                   (\<lparr>dtype = Long, rows = [toks @ [i]], ncols = length (toks @ [i])\<rparr>,
                    pre @ decode tok [i])"
      by blast
    have "generate_loop g tok pick (Suc step) n
            (\<lparr>dtype = Long, rows = [toks @ [i]], ncols = length (toks @ [i])\<rparr>,
             pre @ decode tok [i]) = Inl IndexError"
      using Suc.prems i True by (intro Suc.IH) simp_all
    then show ?thesis unfolding eq .
  qed
qed

lemma prefix_tensor_nonempty:
  "ids \<noteq> [] \<Longrightarrow> prefix_tensor ids = \<lparr>dtype = Long, rows = [ids], ncols = length ids\<rparr>"
  by (simp add: prefix_tensor_def)

lemma prefix_tensor_rows:
  "rows (prefix_tensor enc) = [enc]" "ncols (prefix_tensor enc) = length enc"
  by (simp_all add: prefix_tensor_def)

lemma scores_satisfy_any: "scores_satisfy g (\<lambda>row. True)"
  by (simp add: scores_satisfy_def list_all_iff)

text \<open>
  Claim C4. Whenever a call of \<open>generate\<close> returns, in its greedy and in its top-k
  version, the token sequence it has built is the encoded prefix followed by exactly
  \<open>max_new_tokens\<close> new token ids, one appended per iteration, so it has
  \<open>len(prefix_tokens) + max_new_tokens\<close> tokens; the text returned is the prefix
  followed by the decoding of each new token.
\<close>

theorem generate_token_count:
  "(run_generate_greedy model tok prefix n = Inr (ids, out) \<longrightarrow>
      (\<exists>new. length new = n \<and> rows ids = [encode tok prefix @ new]
           \<and> ncols ids = length (encode tok prefix) + n
           \<and> out = prefix @ concat (map (\<lambda>t. decode tok [t]) new)))
   \<and> (run_generate_topk model tok order draws prefix n temp = Inr (ids, out) \<longrightarrow>
      (\<exists>new. length new = n \<and> rows ids = [encode tok prefix @ new]
           \<and> ncols ids = length (encode tok prefix) + n
           \<and> out = prefix @ concat (map (\<lambda>t. decode tok [t]) new)))"
proof (intro conjI impI)
  assume "run_generate_greedy model tok prefix n = Inr (ids, out)"
  then have "generate_loop model tok (\<lambda>step. next_greedy) 0 n
               (prefix_tensor (encode tok prefix), prefix) = Inr (ids, out)"
    by (simp add: run_generate_greedy_def)
  from generate_loop_shape [OF one_token_greedy this prefix_tensor_rows(1)]
  show "\<exists>new. length new = n \<and> rows ids = [encode tok prefix @ new]
           \<and> ncols ids = length (encode tok prefix) + n
           \<and> out = prefix @ concat (map (\<lambda>t. decode tok [t]) new)"
    by (simp add: prefix_tensor_rows(2))
next
  assume "run_generate_topk model tok order draws prefix n temp = Inr (ids, out)"
  then have "generate_loop model tok (pick_topk order draws temp) 0 n
               (prefix_tensor (encode tok prefix), prefix) = Inr (ids, out)"
    by (simp add: run_generate_topk_def)
  from generate_loop_shape [OF one_token_topk this prefix_tensor_rows(1)]
  show "\<exists>new. length new = n \<and> rows ids = [encode tok prefix @ new]
           \<and> ncols ids = length (encode tok prefix) + n
           \<and> out = prefix @ concat (map (\<lambda>t. decode tok [t]) new)"
    by (simp add: prefix_tensor_rows(2))
qed

lemma toy_encode:
  "s \<noteq> [] \<Longrightarrow> encode toy_tokenizer s \<noteq> []"
  "list_all (\<lambda>t. t < vocab toy_config) (encode toy_tokenizer s)"
  "length (encode toy_tokenizer s) = length s"
  by (simp_all add: toy_tokenizer_def toy_config_def list_all_iff)

lemma toy_greedy_returns:
  "\<exists>ids out. run_generate_greedy toy_gpt toy_tokenizer ''ab'' 2 = Inr (ids, out)"
proof -
  have t: "total_on (vocab toy_config) (\<lambda>row. True) (\<lambda>step. next_greedy)"
    by (rule total_on_greedy) (simp add: toy_config_def)
  have ne: "encode toy_tokenizer ''ab'' \<noteq> []" by (rule toy_encode(1)) simp
  have b: "2 = (0::nat) \<or> length (encode toy_tokenizer ''ab'') + 2 \<le> context_length toy_config + 1"
    by (simp add: toy_encode(3) toy_config_def)
  from generate_loop_ok [OF wf_toy_gpt scores_satisfy_any t ne toy_encode(2) b,
      of toy_tokenizer 0 "''ab''"]
  show ?thesis
    unfolding run_generate_greedy_def prefix_tensor_nonempty [OF ne] by blast
qed

theorem generate_token_count_witness:
  "\<exists>ids out new. run_generate_greedy toy_gpt toy_tokenizer ''ab'' 2 = Inr (ids, out)
      \<and> length new = 2 \<and> rows ids = [encode toy_tokenizer ''ab'' @ new] \<and> ncols ids = 4"
proof -
  from toy_greedy_returns obtain ids out where
    r: "run_generate_greedy toy_gpt toy_tokenizer ''ab'' 2 = Inr (ids, out)"
    by blast
  from generate_token_count [of toy_gpt toy_tokenizer "''ab''" 2 ids out] r obtain new where
    "length new = 2" "rows ids = [encode toy_tokenizer ''ab'' @ new]"
    "ncols ids = length (encode toy_tokenizer ''ab'') + 2"
    by blast
  then show ?thesis using r by (auto simp: toy_encode(3))
qed

subsection \<open>Generation and the context length\<close>

lemma run_generate_topk_ok:
  assumes "wf_GPT cfg model" and "5 \<le> vocab cfg" and "valid_ranking order"
    and "\<forall>step. valid_draw (draws step)" and "finite_scores model temp"
    and "encode tok prefix \<noteq> []" and "list_all (\<lambda>t. t < vocab cfg) (encode tok prefix)"
    and "n = 0 \<or> length (encode tok prefix) + n \<le> context_length cfg + 1"
  shows "\<exists>ids out. run_generate_topk model tok order draws prefix n temp = Inr (ids, out)
           \<and> ncols ids = length (encode tok prefix) + n
           \<and> wf_ids (vocab cfg) 1 (length (encode tok prefix) + n) ids"
proof -
  have t: "total_on (vocab cfg) (finite_quotients temp) (pick_topk order draws temp)"
    by (rule total_on_topk [OF assms(3,4,2)])
  have s: "scores_satisfy model (finite_quotients temp)"
    using assms(5) by (simp add: finite_scores_def)
  from generate_loop_ok [OF assms(1) s t assms(6,7,8), of tok 0 prefix] obtain new where
    new: "length new = n" "list_all (\<lambda>t. t < vocab cfg) new"
    and r: "run_generate_topk model tok order draws prefix n temp
          = Inr (\<lparr>dtype = Long, rows = [encode tok prefix @ new],
                  ncols = length (encode tok prefix) + n\<rparr>,
                 prefix @ concat (map (\<lambda>t. decode tok [t]) new))"
    unfolding run_generate_topk_def prefix_tensor_nonempty [OF assms(6)] by blast
  have "wf_ids (vocab cfg) 1 (length (encode tok prefix) + n)
          \<lparr>dtype = Long, rows = [encode tok prefix @ new],
           ncols = length (encode tok prefix) + n\<rparr>"
    using new assms(7) by (simp add: wf_ids_def)
  then show ?thesis using r by simp
qed

lemma run_generate_topk_fail:
  assumes "wf_GPT cfg model" and "5 \<le> vocab cfg" and "valid_ranking order"
    and "\<forall>step. valid_draw (draws step)" and "finite_scores model temp"
    and "encode tok prefix \<noteq> []" and "list_all (\<lambda>t. t < vocab cfg) (encode tok prefix)"
    and "0 < n" and "context_length cfg + 1 < length (encode tok prefix) + n"
  shows "run_generate_topk model tok order draws prefix n temp = Inl IndexError"
proof -
  have t: "total_on (vocab cfg) (finite_quotients temp) (pick_topk order draws temp)"
    by (rule total_on_topk [OF assms(3,4,2)])
  have s: "scores_satisfy model (finite_quotients temp)"
    using assms(5) by (simp add: finite_scores_def)
  from generate_loop_fail [OF assms(1) s t assms(6,7,8,9), of tok 0 prefix]
  show ?thesis
    by (simp add: run_generate_topk_def prefix_tensor_nonempty [OF assms(6)])
qed

lemma bind_err_assoc:
  "bind_err (bind_err m f) g = bind_err m (\<lambda>x. bind_err (f x) g)"
  by (simp add: bind_err_def split: sum.splits)

text \<open>
  Running the loop for \<open>a + b\<close> iterations is running it for \<open>a\<close> iterations and then,
  from the state reached, for \<open>b\<close> more: the state after \<open>a\<close> iterations is the one
  that iteration \<open>a\<close> passes to the model.
\<close>

lemma generate_loop_split:
  "generate_loop g tok pick step (a + b) st
     = bind_err (generate_loop g tok pick step a st) (generate_loop g tok pick (step + a) b)"
proof (induction a arbitrary: step st)
  case 0
  then show ?case by (simp add: bind_err_def)
next
  case (Suc a)
  obtain ids pre where st: "st = (ids, pre)" by (cases st)
  show ?case
    by (simp add: st bind_err_assoc Suc.IH)
qed

lemma run_generate_topk_split:
  assumes "s \<le> n" and "run_generate_topk model tok order draws prefix s temp = Inr st"
  shows "run_generate_topk model tok order draws prefix n temp
           = generate_loop model tok (pick_topk order draws temp) s (n - s) st"
proof -
  have "n = s + (n - s)" using assms(1) by simp
  then have "run_generate_topk model tok order draws prefix n temp
          = bind_err (run_generate_topk model tok order draws prefix s temp)
              (generate_loop model tok (pick_topk order draws temp) (0 + s) (n - s))"
    unfolding run_generate_topk_def by (metis generate_loop_split)
  then show ?thesis by (simp add: assms(2) bind_err_def)
qed

lemma run_generate_topk_passes:
  assumes "wf_GPT cfg model" and "5 \<le> vocab cfg" and "valid_ranking order"
    and "\<forall>step. valid_draw (draws step)" and "finite_scores model temp"
    and "encode tok prefix \<noteq> []" and "list_all (\<lambda>t. t < vocab cfg) (encode tok prefix)"
    and "s < n" and "length (encode tok prefix) + s \<le> context_length cfg"
  shows "\<exists>ids out logits.
           run_generate_topk model tok order draws prefix s temp = Inr (ids, out)
         \<and> run_generate_topk model tok order draws prefix n temp
             = generate_loop model tok (pick_topk order draws temp) s (n - s) (ids, out)
         \<and> ncols ids = length (encode tok prefix) + s \<and> ncols ids \<le> context_length cfg
         \<and> GPT_forward model ids = Inr logits"
proof -
  have b: "s = 0 \<or> length (encode tok prefix) + s \<le> context_length cfg + 1"
    using assms(9) by simp
  from run_generate_topk_ok [OF assms(1-7) b] obtain ids out where
    r: "run_generate_topk model tok order draws prefix s temp = Inr (ids, out)"
    and c: "ncols ids = length (encode tok prefix) + s"
    and w: "wf_ids (vocab cfg) 1 (length (encode tok prefix) + s) ids"
    by blast
  from GPT_forward_ok [OF assms(1) w assms(9)] obtain logits where
    f: "GPT_forward model ids = Inr logits" by blast
  have "s \<le> n" using assms(8) by simp
  from run_generate_topk_split [OF this r] r c f assms(9) show ?thesis by auto
qed

lemma run_generate_topk_overlong_state:
  assumes "wf_GPT cfg model" and "5 \<le> vocab cfg" and "valid_ranking order"
    and "\<forall>step. valid_draw (draws step)" and "finite_scores model temp"
    and "encode tok prefix \<noteq> []" and "list_all (\<lambda>t. t < vocab cfg) (encode tok prefix)"
    and "0 < n" and "context_length cfg + 1 < length (encode tok prefix) + n"
  shows "\<exists>s < n. \<exists>ids out.
           run_generate_topk model tok order draws prefix s temp = Inr (ids, out)
         \<and> run_generate_topk model tok order draws prefix n temp
             = generate_loop model tok (pick_topk order draws temp) s (n - s) (ids, out)
         \<and> ncols ids = length (encode tok prefix) + s
         \<and> context_length cfg < ncols ids
         \<and> GPT_forward model ids = Inl IndexError"
proof -
  define s where "s = context_length cfg + 1 - length (encode tok prefix)"
  have sn: "s < n" using assms(8,9) unfolding s_def by arith
  have b: "s = 0 \<or> length (encode tok prefix) + s \<le> context_length cfg + 1"
    unfolding s_def by arith
  from run_generate_topk_ok [OF assms(1-7) b] obtain ids out where
    r: "run_generate_topk model tok order draws prefix s temp = Inr (ids, out)"
    and c: "ncols ids = length (encode tok prefix) + s"
    and w: "wf_ids (vocab cfg) 1 (length (encode tok prefix) + s) ids"
    by blast
  have lt: "context_length cfg < length (encode tok prefix) + s"
    unfolding s_def by arith
  have f: "GPT_forward model ids = Inl IndexError"
    by (rule GPT_forward_too_long_ids [OF assms(1) w lt])
  have "s \<le> n" using sn by simp
  from run_generate_topk_split [OF this r] r c f lt sn show ?thesis by auto
qed

lemma valid_first_draws: "\<forall>step. valid_draw (first_draws step)"
  by (simp add: first_draws_def valid_draw_first)

subsection \<open>The scores of the small model\<close>

lemma GPT_forward_rows:
  assumes "GPT_forward g x = Inr logits"
  shows "\<forall>m \<in> set logits. \<forall>row \<in> set m. \<exists>v. row = linear (output_head g) v"
  using assms
  by (auto simp: GPT_forward_def Let_def bind_err_def split: sum.splits if_splits) blast

lemma dot_zeros: "dot (replicate n 0) v = 0"
proof -
  have "\<forall>x \<in> set (map2 (*) (replicate n (0::real)) v). x = 0"
    by (auto dest!: set_zip_leftD)
  then show ?thesis unfolding dot_def by (rule sum_list_all_zero)
qed

lemma toy_scores: "linear (output_head toy_gpt) v = replicate 5 0"
  by (simp add: toy_gpt_def zeros_linear_def linear_def dot_zeros map_replicate_const)

lemma finite_scores_toy: "finite_scores toy_gpt 1"
proof -
  have q: "finite_quotients 1 (replicate 5 0)"
    by (simp add: finite_quotients_def f32_div_def f32_of_def overflow_at_def list_all_iff)
  show ?thesis
    unfolding finite_scores_def scores_satisfy_def
  proof (intro allI impI)
    fix x logits assume "GPT_forward toy_gpt x = Inr logits"
    from GPT_forward_rows [OF this]
    have "\<forall>m \<in> set logits. \<forall>row \<in> set m. row = replicate 5 0"
      by (simp add: toy_scores)
    then show "list_all (list_all (finite_quotients 1)) logits"
      using q by (auto simp: list_all_iff)
  qed
qed

text \<open>
  Claim C3, as the code has it. \<open>generate\<close> passes the whole of \<open>token_ids\<close> to the
  model in every iteration and never truncates it. For a model as the constructor
  builds it, with at least five vocabulary entries and logits that the temperature
  keeps finite, draws that respect the probabilities and a non-empty prefix of valid
  token ids: if \<open>len(prefix_tokens) + max_new_tokens - 1 \<le> context_length\<close> (or no token
  is asked for) the call returns, with \<open>len(prefix_tokens) + max_new_tokens\<close> tokens,
  and iteration \<open>s\<close> of it, for every \<open>s < max_new_tokens\<close>, passes
  \<open>len(prefix_tokens) + s \<le> context_length\<close> tokens to the model, which returns
  logits; if \<open>max_new_tokens > 0\<close> and
  \<open>len(prefix_tokens) + max_new_tokens - 1 > context_length\<close>, the call fails with the
  index error of the positional lookup: some iteration \<open>s\<close> passes more than
  \<open>context_length\<close> tokens to the model, and the forward pass on them fails. The
  state that iteration \<open>s\<close> passes on is the one a call for \<open>s\<close> tokens returns, and
  the call continues from it with the remaining iterations.
\<close>

theorem generate_within_context:
  assumes "wf_GPT cfg model" and "5 \<le> vocab cfg" and "valid_ranking order"
    and "\<forall>step. valid_draw (draws step)" and "finite_scores model temp"
    and "encode tok prefix \<noteq> []" and "list_all (\<lambda>t. t < vocab cfg) (encode tok prefix)"
  shows "(n = 0 \<or> length (encode tok prefix) + n \<le> context_length cfg + 1 \<longrightarrow>
            (\<exists>ids out. run_generate_topk model tok order draws prefix n temp = Inr (ids, out)
               \<and> ncols ids = length (encode tok prefix) + n)
          \<and> (\<forall>s < n. \<exists>ids out logits.
                   run_generate_topk model tok order draws prefix s temp = Inr (ids, out)
                 \<and> run_generate_topk model tok order draws prefix n temp
                     = generate_loop model tok (pick_topk order draws temp) s (n - s) (ids, out)
                 \<and> ncols ids = length (encode tok prefix) + s
                 \<and> ncols ids \<le> context_length cfg
                 \<and> GPT_forward model ids = Inr logits))
       \<and> (0 < n \<and> context_length cfg + 1 < length (encode tok prefix) + n \<longrightarrow>
            run_generate_topk model tok order draws prefix n temp = Inl IndexError
            \<and> (\<exists>s < n. \<exists>ids out.
                   run_generate_topk model tok order draws prefix s temp = Inr (ids, out)
                 \<and> run_generate_topk model tok order draws prefix n temp
                     = generate_loop model tok (pick_topk order draws temp) s (n - s) (ids, out)
                 \<and> ncols ids = length (encode tok prefix) + s
                 \<and> context_length cfg < ncols ids
                 \<and> GPT_forward model ids = Inl IndexError))"
proof (intro conjI impI allI)
  assume "n = 0 \<or> length (encode tok prefix) + n \<le> context_length cfg + 1"
  from run_generate_topk_ok [OF assms this]
  show "\<exists>ids out. run_generate_topk model tok order draws prefix n temp = Inr (ids, out)
          \<and> ncols ids = length (encode tok prefix) + n"
    by blast
next
  fix s
  assume h: "n = 0 \<or> length (encode tok prefix) + n \<le> context_length cfg + 1" and s: "s < n"
  then have "length (encode tok prefix) + s \<le> context_length cfg" by arith
  from run_generate_topk_passes [OF assms s this]
  show "\<exists>ids out logits.
           run_generate_topk model tok order draws prefix s temp = Inr (ids, out)
         \<and> run_generate_topk model tok order draws prefix n temp
             = generate_loop model tok (pick_topk order draws temp) s (n - s) (ids, out)
         \<and> ncols ids = length (encode tok prefix) + s
         \<and> ncols ids \<le> context_length cfg
         \<and> GPT_forward model ids = Inr logits" .
next
  assume h: "0 < n \<and> context_length cfg + 1 < length (encode tok prefix) + n"
  then show "run_generate_topk model tok order draws prefix n temp = Inl IndexError"
    using run_generate_topk_fail [OF assms] by blast
  from h show "\<exists>s < n. \<exists>ids out.
                   run_generate_topk model tok order draws prefix s temp = Inr (ids, out)
                 \<and> run_generate_topk model tok order draws prefix n temp
                     = generate_loop model tok (pick_topk order draws temp) s (n - s) (ids, out)
                 \<and> ncols ids = length (encode tok prefix) + s
                 \<and> context_length cfg < ncols ids
                 \<and> GPT_forward model ids = Inl IndexError"
    using run_generate_topk_overlong_state [OF assms] by blast
qed

theorem generate_within_context_witness:
  "wf_GPT toy_config toy_gpt \<and> 5 \<le> vocab toy_config \<and> valid_ranking lower_first
   \<and> valid_draw (first_draws 0) \<and> finite_scores toy_gpt 1
   \<and> encode toy_tokenizer ''ab'' \<noteq> []
   \<and> list_all (\<lambda>t. t < vocab toy_config) (encode toy_tokenizer ''ab'')
   \<and> (\<exists>ids out. run_generate_topk toy_gpt toy_tokenizer lower_first first_draws ''ab'' 2 1
                   = Inr (ids, out) \<and> ncols ids = 4)
   \<and> (\<exists>ids out logits.
         run_generate_topk toy_gpt toy_tokenizer lower_first first_draws ''ab'' 1 1 = Inr (ids, out)
       \<and> ncols ids = 3 \<and> GPT_forward toy_gpt ids = Inr logits)
   \<and> run_generate_topk toy_gpt toy_tokenizer lower_first first_draws ''abc'' 2 1 = Inl IndexError"
proof -
  have v: "5 \<le> vocab toy_config" and c: "context_length toy_config = 3"
    by (simp_all add: toy_config_def)
  have ne: "encode toy_tokenizer ''ab'' \<noteq> []" by (rule toy_encode(1)) simp
  have ne3: "encode toy_tokenizer ''abc'' \<noteq> []" by (rule toy_encode(1)) simp
  note w = generate_within_context
    [OF wf_toy_gpt v valid_lower_first valid_first_draws finite_scores_toy]
  note w2 = w [OF ne toy_encode(2), of 2]
  have a: "\<exists>ids out. run_generate_topk toy_gpt toy_tokenizer lower_first first_draws ''ab'' 2 1
                   = Inr (ids, out) \<and> ncols ids = 4"
    using w2 by (auto simp: toy_encode(3) c)
  have "(1::nat) < 2" by simp
  then have p: "\<exists>ids out logits.
         run_generate_topk toy_gpt toy_tokenizer lower_first first_draws ''ab'' 1 1 = Inr (ids, out)
       \<and> ncols ids = 3 \<and> GPT_forward toy_gpt ids = Inr logits"
    using w2 by (fastforce simp: toy_encode(3) c)
  have b: "run_generate_topk toy_gpt toy_tokenizer lower_first first_draws ''abc'' 2 1
             = Inl IndexError"
    using w [OF ne3 toy_encode(2), of 2] by (simp add: toy_encode(3) c)
  show ?thesis
    using wf_toy_gpt v valid_lower_first valid_first_draws finite_scores_toy ne toy_encode(2)
      a p b
    by blast
qed

text \<open>
  With a context length of \<open>3\<close>, a prefix of two tokens and three new tokens, the
  third iteration passes four tokens to the model: the call ends in the index error
  of the forward pass.
\<close>

theorem generate_exceeds_context_counterexample:
  "context_length toy_config = 3 \<and> length (encode toy_tokenizer ''ab'') = 2
   \<and> run_generate_topk toy_gpt toy_tokenizer lower_first first_draws ''ab'' 3 1 = Inl IndexError"
proof -
  have v: "5 \<le> vocab toy_config" and c: "context_length toy_config = 3"
    by (simp_all add: toy_config_def)
  have ne: "encode toy_tokenizer ''ab'' \<noteq> []" by (rule toy_encode(1)) simp
  have n: "(0::nat) < 3" by simp
  have b: "context_length toy_config + 1 < length (encode toy_tokenizer ''ab'') + 3"
    by (simp add: toy_encode(3) c)
  have "run_generate_topk toy_gpt toy_tokenizer lower_first first_draws ''ab'' 3 1
          = Inl IndexError"
    by (rule run_generate_topk_fail [OF wf_toy_gpt v valid_lower_first valid_first_draws
          finite_scores_toy ne toy_encode(2) n b])
  then show ?thesis using c by (simp add: toy_encode(3))
qed

section \<open>Properties of the training loss\<close>

lemma zip_concat:
  assumes "list_all2 (\<lambda>a b. length a = length b) A Y"
  shows "zip (concat A) (concat Y) = concat (map2 zip A Y)"
  using assms by (induction rule: list_all2_induct) simp_all

lemma sum_list_concat_rows:
  "sum_list (concat xss) = sum_list (map sum_list (xss :: 'a::monoid_add list list))"
  by (induction xss) simp_all

lemma length_concat_rect:
  "list_all (\<lambda>m. length m = T) xs \<Longrightarrow> length (concat xs) = length xs * T"
  by (induction xs) simp_all

lemma sum_list_map2_nth:
  assumes "length a = T" and "length y = T"
  shows "sum_list (map2 f a y) = (\<Sum>p<T. f (a ! p) (y ! p))"
proof -
  have "sum_list (map2 f a y) = (\<Sum>p = 0..<length (map2 f a y). map2 f a y ! p)"
    by (rule sum_list_sum_nth)
  also have "\<dots> = (\<Sum>p = 0..<T. f (a ! p) (y ! p))"
    using assms by (intro sum.cong) simp_all
  finally show ?thesis by (simp add: atLeast0LessThan)
qed

lemma sum_list_flattened:
  assumes "length A = B" and "length Y = B"
    and "list_all (\<lambda>a. length a = T) A" and "list_all (\<lambda>y. length y = T) Y"
  shows "sum_list (map2 f (concat A) (concat Y)) = (\<Sum>b<B. \<Sum>p<T. f (A ! b ! p) (Y ! b ! p))"
proof -
  have l2: "list_all2 (\<lambda>a b. length a = length b) A Y"
    using assms by (auto simp: list_all2_conv_all_nth list_all_length)
  have "sum_list (map2 f (concat A) (concat Y))
          = sum_list (map (\<lambda>(a, y). sum_list (map2 f a y)) (zip A Y))"
    unfolding zip_concat [OF l2]
    by (simp add: map_concat sum_list_concat_rows comp_def case_prod_unfold)
  also have "\<dots> = (\<Sum>b = 0..<length (zip A Y). (map (\<lambda>(a, y). sum_list (map2 f a y)) (zip A Y)) ! b)"
    using sum_list_sum_nth [of "map (\<lambda>(a, y). sum_list (map2 f a y)) (zip A Y)"] by simp
  also have "\<dots> = (\<Sum>b = 0..<B. \<Sum>p<T. f (A ! b ! p) (Y ! b ! p))"
  proof (rule sum.cong)
    show "{0..<length (zip A Y)} = {0..<B}" using assms(1,2) by simp
    fix b assume "b \<in> {0..<B}"
    then have b: "b < B" by simp
    then have "length (A ! b) = T" "length (Y ! b) = T"
      using assms by (simp_all add: list_all_length)
    then show "map (\<lambda>(a, y). sum_list (map2 f a y)) (zip A Y) ! b
                 = (\<Sum>p<T. f (A ! b ! p) (Y ! b ! p))"
      using b assms(1,2) by (simp add: sum_list_map2_nth)
  qed
  finally show ?thesis by (simp add: atLeast0LessThan)
qed

lemma training_loss_value:
  assumes "wf_GPT cfg model" and "wf_ids (vocab cfg) B T x" and "wf_ids (vocab cfg) B T y"
    and "0 < B" and "0 < T" and "T \<le> context_length cfg"
  shows "\<exists>logits. GPT_forward model x = Inr logits
           \<and> training_loss model x y
               = Inr ((\<Sum>b<B. \<Sum>p<T. nll (logits ! b ! p) (rows y ! b ! p)) / real (B * T))"
proof -
  from GPT_forward_ok [OF assms(1,2,6)] obtain logits where
    f: "GPT_forward model x = Inr logits" and lb: "length logits = B"
    and sh: "list_all (\<lambda>m. length m = T \<and> list_all (\<lambda>v. length v = vocab cfg) m) logits"
    by blast
  have y: "length (rows y) = B" "list_all (\<lambda>r. length r = T) (rows y)"
    "\<forall>r \<in> set (rows y). \<forall>t \<in> set r. t < vocab cfg"
    using assms(3) by (auto simp: wf_ids_def list_all_iff)
  have lt: "list_all (\<lambda>m. length m = T) logits"
    using sh by (simp add: list_all_iff)
  have len: "length (concat logits) = B * T" "length (concat (rows y)) = B * T"
    using length_concat_rect [OF lt] length_concat_rect [OF y(2)] lb y(1) by simp_all
  have ne: "concat logits \<noteq> []"
    using len(1) assms(4,5) by (metis length_0_conv mult_is_0 less_numeral_extra(3))
  have inrange: "\<not> (\<exists>(scores, t) \<in> set (zip (concat logits) (concat (rows y))). length scores \<le> t)"
  proof
    assume "\<exists>(scores, t) \<in> set (zip (concat logits) (concat (rows y))). length scores \<le> t"
    then obtain scores t where m: "(scores, t) \<in> set (zip (concat logits) (concat (rows y)))"
      and le: "length scores \<le> t"
      by auto
    have "scores \<in> set (concat logits)" using m by (rule set_zip_leftD)
    then have "length scores = vocab cfg" using sh by (auto simp: list_all_iff)
    moreover have "t \<in> set (concat (rows y))" using m by (rule set_zip_rightD)
    then have "t < vocab cfg" using y(3) by auto
    ultimately show False using le by simp
  qed
  have "cross_entropy (concat logits) (concat (rows y))
          = Inr (sum_list (map2 nll (concat logits) (concat (rows y))) / real (B * T))"
    using len ne inrange by (simp add: cross_entropy_def)
  also have "sum_list (map2 nll (concat logits) (concat (rows y)))
               = (\<Sum>b<B. \<Sum>p<T. nll (logits ! b ! p) (rows y ! b ! p))"
    by (rule sum_list_flattened [OF lb y(1) lt y(2)])
  finally show ?thesis
    using f by (simp add: training_loss_def bind_err_def)
qed

text \<open>
  Claim C2. For a model as the constructor builds it and batches \<open>x\<close> and \<open>y\<close> of
  input and target ids of shape \<open>[B, T]\<close>, not empty and within the context length,
  the loss of the training step is the mean, over all \<open>B\<close> elements of the batch and
  all \<open>T\<close> positions, of the negative logarithm of the probability that the softmax of
  the logits at that position gives to the target token of that position.
\<close>

theorem training_loss_is_mean_nll:
  assumes "wf_GPT cfg model" and "wf_ids (vocab cfg) B T x" and "wf_ids (vocab cfg) B T y"
    and "0 < B" and "0 < T" and "T \<le> context_length cfg"
  shows "\<exists>logits. GPT_forward model x = Inr logits
           \<and> training_loss model x y
               = Inr ((\<Sum>b<B. \<Sum>p<T. - ln (softmax (logits ! b ! p) ! (rows y ! b ! p)))
                        / real (B * T))"
  using training_loss_value [OF assms] by (simp add: nll_def)

theorem training_loss_is_mean_nll_witness:
  "wf_GPT toy_config toy_gpt
   \<and> wf_ids (vocab toy_config) 1 2 \<lparr>dtype = Long, rows = [[0, 1]], ncols = 2\<rparr>
   \<and> wf_ids (vocab toy_config) 1 2 \<lparr>dtype = Long, rows = [[1, 2]], ncols = 2\<rparr>
   \<and> (\<exists>logits. GPT_forward toy_gpt \<lparr>dtype = Long, rows = [[0, 1]], ncols = 2\<rparr> = Inr logits
          \<and> training_loss toy_gpt \<lparr>dtype = Long, rows = [[0, 1]], ncols = 2\<rparr>
                \<lparr>dtype = Long, rows = [[1, 2]], ncols = 2\<rparr>
              = Inr ((- ln (softmax (logits ! 0 ! 0) ! 1) + - ln (softmax (logits ! 0 ! 1) ! 2)) / 2))"
proof -
  have x: "wf_ids (vocab toy_config) 1 2 \<lparr>dtype = Long, rows = [[0, 1]], ncols = 2\<rparr>"
    and y: "wf_ids (vocab toy_config) 1 2 \<lparr>dtype = Long, rows = [[1, 2]], ncols = 2\<rparr>"
    by (simp_all add: wf_ids_def toy_config_def)
  have b: "(0::nat) < 1" and t: "(0::nat) < 2" and c: "2 \<le> context_length toy_config"
    by (simp_all add: toy_config_def)
  from training_loss_is_mean_nll [OF wf_toy_gpt x y b t c] obtain logits where
    "GPT_forward toy_gpt \<lparr>dtype = Long, rows = [[0, 1]], ncols = 2\<rparr> = Inr logits"
    "training_loss toy_gpt \<lparr>dtype = Long, rows = [[0, 1]], ncols = 2\<rparr>
        \<lparr>dtype = Long, rows = [[1, 2]], ncols = 2\<rparr>
      = Inr ((\<Sum>b<1. \<Sum>p<2. - ln (softmax (logits ! b ! p)
                 ! (rows \<lparr>dtype = Long, rows = [[1, 2]], ncols = 2\<rparr> ! b ! p))) / real (1 * 2))"
    by blast
  then have "GPT_forward toy_gpt \<lparr>dtype = Long, rows = [[0, 1]], ncols = 2\<rparr> = Inr logits
          \<and> training_loss toy_gpt \<lparr>dtype = Long, rows = [[0, 1]], ncols = 2\<rparr>
                \<lparr>dtype = Long, rows = [[1, 2]], ncols = 2\<rparr>
              = Inr ((- ln (softmax (logits ! 0 ! 0) ! 1) + - ln (softmax (logits ! 0 ! 1) ! 2)) / 2)"
    by (simp add: numeral_2_eq_2)
  then show ?thesis using wf_toy_gpt x y by blast
qed

end
